theory Spec2Isabelle
  imports Main "HOL-Library.AList" "HOL-Library.Sublist"
begin

section \<open>Python strings and the Unicode tables the standard library consults\<close>

text \<open>
  A Python \<^verbatim>\<open>str\<close> is a sequence of Unicode code points. The scraped titles and
  descriptions are Romanian text, so the model keeps code points (numbers) rather than
  bytes. String literals of the source are written as HOL strings and converted.
\<close>

type_synonym codepoint = nat
type_synonym ustring = "codepoint list"

definition ustr :: "string \<Rightarrow> ustring" where
  "ustr s = map of_char s"

text \<open>
  The scraper calls \<^verbatim>\<open>str.lower\<close>, the \<^verbatim>\<open>re\<close> classes \<^verbatim>\<open>\d \s \w \b\<close>,
  \<^verbatim>\<open>int\<close> and \<^verbatim>\<open>unicodedata.normalize\<close>. What these do on a code point is
  data of the Unicode Character Database shipped with the interpreter; it is not part of the
  repository and is taken as a parameter:
  \<^item> \<open>isalnum\<close>, \<open>isspace\<close>: \<^verbatim>\<open>str.isalnum\<close>, \<^verbatim>\<open>str.isspace\<close> of the one-character string;
  \<^item> \<open>decimal\<close>: the value of a decimal digit (category Nd), \<open>None\<close> for any other character;
  \<^item> \<open>lower_at behind c rest\<close>: the characters \<^verbatim>\<open>str.lower\<close> emits for the character \<open>c\<close>
    that stands after \<open>rev behind\<close> and before \<open>rest\<close> (one character except for U+0130; the
    context matters for the Greek final sigma);
  \<^item> \<open>decomposition\<close>: the full compatibility decomposition of a character;
  \<^item> \<open>combining\<close>: its canonical combining class.
\<close>

record unicode =
  isalnum :: "codepoint \<Rightarrow> bool"
  isspace :: "codepoint \<Rightarrow> bool"
  decimal :: "codepoint \<Rightarrow> nat option"
  lower_at :: "ustring \<Rightarrow> codepoint \<Rightarrow> ustring \<Rightarrow> ustring"
  decomposition :: "codepoint \<Rightarrow> ustring"
  combining :: "codepoint \<Rightarrow> nat"

fun lower_from :: "unicode \<Rightarrow> ustring \<Rightarrow> ustring \<Rightarrow> ustring" where
  "lower_from U behind [] = []"
| "lower_from U behind (c # rest) = lower_at U behind c rest @ lower_from U (c # behind) rest"

definition py_lower :: "unicode \<Rightarrow> ustring \<Rightarrow> ustring" where
  "py_lower U s = lower_from U [] s"

text \<open>What the tables say on ASCII (code points below 128); every theorem that evaluates
  the code on ASCII text assumes no more than this of the tables.\<close>

definition ascii_lower :: "codepoint \<Rightarrow> codepoint" where
  "ascii_lower c = (if 65 \<le> c \<and> c \<le> 90 then c + 32 else c)"

definition ascii_alnum :: "codepoint \<Rightarrow> bool" where
  "ascii_alnum c = ((48 \<le> c \<and> c \<le> 57) \<or> (65 \<le> c \<and> c \<le> 90) \<or> (97 \<le> c \<and> c \<le> 122))"

definition ascii_space :: "codepoint \<Rightarrow> bool" where
  "ascii_space c = ((9 \<le> c \<and> c \<le> 13) \<or> (28 \<le> c \<and> c \<le> 32))"

definition ascii_decimal :: "codepoint \<Rightarrow> nat option" where
  "ascii_decimal c = (if 48 \<le> c \<and> c \<le> 57 then Some (c - 48) else None)"

definition ascii_conformant :: "unicode \<Rightarrow> bool" where
  "ascii_conformant U =
     (\<forall>c. c < 128 \<longrightarrow>
        isalnum U c = ascii_alnum c \<and> isspace U c = ascii_space c \<and> decimal U c = ascii_decimal c \<and>
        (\<forall>behind rest. lower_at U behind c rest = [ascii_lower c]))"

section \<open>Regular expressions as the \<^verbatim>\<open>re\<close> module runs them\<close>

text \<open>
  The patterns of the source are kept as data and run by a backtracking matcher that
  returns every way to match, in the order the engine would try them: the head of the
  list is the match \<^verbatim>\<open>re\<close> reports. A state is the groups captured so far, the text
  already consumed (reversed, so its head is the previous character) and the text left.
\<close>

datatype cclass = Digit | Space | Word | Chr codepoint | Range codepoint codepoint

datatype regex =
    Sym cclass
  | Cat regex regex
  | Or regex regex
  | Repeat cclass nat "nat option"
  | Group string regex
  | Boundary
  | Empty

type_synonym mstate = "(string \<times> ustring) list \<times> ustring \<times> ustring"

definition is_word :: "unicode \<Rightarrow> codepoint \<Rightarrow> bool" where
  "is_word U c = (isalnum U c \<or> c = 95)"

fun in_class :: "unicode \<Rightarrow> cclass \<Rightarrow> codepoint \<Rightarrow> bool" where
  "in_class U Digit c = (decimal U c \<noteq> None)"
| "in_class U Space c = isspace U c"
| "in_class U Word c = is_word U c"
| "in_class U (Chr x) c = (c = x)"
| "in_class U (Range lo hi) c = (lo \<le> c \<and> c \<le> hi)"

text \<open>\<^verbatim>\<open>\b\<close>: exactly one of the previous and the next character is a word character;
  outside the text there is no word character.\<close>

definition at_boundary :: "unicode \<Rightarrow> ustring \<Rightarrow> ustring \<Rightarrow> bool" where
  "at_boundary U behind rest =
     ((case behind of [] \<Rightarrow> False | p # _ \<Rightarrow> is_word U p) \<noteq>
      (case rest of [] \<Rightarrow> False | n # _ \<Rightarrow> is_word U n))"

text \<open>A greedy repetition \<^verbatim>\<open>c{lo,hi}\<close> (\<open>hi = None\<close> for \<^verbatim>\<open>+\<close> and \<^verbatim>\<open>*\<close>): the
  longest run first, then each shorter one down to \<open>lo\<close>.\<close>

fun rep :: "unicode \<Rightarrow> cclass \<Rightarrow> nat \<Rightarrow> nat option \<Rightarrow> ustring \<Rightarrow> ustring \<Rightarrow> (ustring \<times> ustring) list" where
  "rep U c lo hi behind [] = (if lo = 0 then [(behind, [])] else [])"
| "rep U c lo hi behind (x # xs) =
     (if in_class U c x \<and> hi \<noteq> Some 0
      then rep U c (lo - 1) (map_option (\<lambda>h. h - 1) hi) (x # behind) xs else [])
     @ (if lo = 0 then [(behind, x # xs)] else [])"

fun rmatch :: "unicode \<Rightarrow> regex \<Rightarrow> mstate \<Rightarrow> mstate list" where
  "rmatch U (Sym c) (caps, behind, rest) =
     (case rest of [] \<Rightarrow> [] | x # xs \<Rightarrow> if in_class U c x then [(caps, x # behind, xs)] else [])"
| "rmatch U (Cat r1 r2) st = concat (map (rmatch U r2) (rmatch U r1 st))"
| "rmatch U (Or r1 r2) st = rmatch U r1 st @ rmatch U r2 st"
| "rmatch U (Repeat c lo hi) (caps, behind, rest) =
     map (\<lambda>(b, r). (caps, b, r)) (rep U c lo hi behind rest)"
| "rmatch U (Group name r) (caps, behind, rest) =
     map (\<lambda>(caps', b, r'). (caps' @ [(name, rev (take (length b - length behind) b))], b, r'))
       (rmatch U r (caps, behind, rest))"
| "rmatch U Boundary (caps, behind, rest) =
     (if at_boundary U behind rest then [(caps, behind, rest)] else [])"
| "rmatch U Empty st = [st]"

text \<open>\<^verbatim>\<open>re.match\<close> anchors at the start of the text; \<^verbatim>\<open>re.search\<close> tries every start
  position from left to right. Both report the first way to match, if any.\<close>

definition re_match :: "unicode \<Rightarrow> regex \<Rightarrow> ustring \<Rightarrow> mstate option" where
  "re_match U r s = (case rmatch U r ([], [], s) of [] \<Rightarrow> None | m # _ \<Rightarrow> Some m)"

fun search_from :: "unicode \<Rightarrow> regex \<Rightarrow> ustring \<Rightarrow> ustring \<Rightarrow> mstate option" where
  "search_from U r behind [] =
     (case rmatch U r ([], behind, []) of [] \<Rightarrow> None | m # _ \<Rightarrow> Some m)"
| "search_from U r behind (x # xs) =
     (case rmatch U r ([], behind, x # xs) of
        [] \<Rightarrow> search_from U r (x # behind) xs
      | m # _ \<Rightarrow> Some m)"

definition re_search :: "unicode \<Rightarrow> regex \<Rightarrow> ustring \<Rightarrow> mstate option" where
  "re_search U r s = search_from U r [] s"

text \<open>\<^verbatim>\<open>re.escape(s)\<close> is a pattern that matches the characters of \<open>s\<close> literally.\<close>

definition re_escape :: "ustring \<Rightarrow> regex" where
  "re_escape s = foldr (\<lambda>c r. Cat (Sym (Chr c)) r) s Empty"

section \<open>Dates and times (\<^verbatim>\<open>datetime\<close>)\<close>

datatype error = ValueError | TypeError | KeyError

text \<open>A \<^verbatim>\<open>datetime\<close> value: the proleptic Gregorian date, the time of day and, for an
  aware value, its UTC offset in microseconds (\<open>None\<close>: naive).\<close>

record datetime =
  year :: nat
  month :: nat
  day :: nat
  hour :: nat
  minute :: nat
  second :: nat
  microsecond :: nat
  tzinfo :: "int option"

definition is_leap :: "nat \<Rightarrow> bool" where
  "is_leap y = (y mod 4 = 0 \<and> (y mod 100 \<noteq> 0 \<or> y mod 400 = 0))"

definition days_in_month :: "nat \<Rightarrow> nat \<Rightarrow> nat" where
  "days_in_month y m =
     (if m = 2 \<and> is_leap y then 29
      else [0, 31, 28, 31, 30, 31, 30, 31, 31, 30, 31, 30, 31] ! m)"

definition days_before_year :: "nat \<Rightarrow> nat" where
  "days_before_year y = (y - 1) * 365 + (y - 1) div 4 - (y - 1) div 100 + (y - 1) div 400"

definition days_before_month :: "nat \<Rightarrow> nat \<Rightarrow> nat" where
  "days_before_month y m =
     [0, 0, 31, 59, 90, 120, 151, 181, 212, 243, 273, 304, 334] ! m
       + (if m > 2 \<and> is_leap y then 1 else 0)"

definition ymd2ord :: "nat \<Rightarrow> nat \<Rightarrow> nat \<Rightarrow> nat" where
  "ymd2ord y m d = days_before_year y + days_before_month y m + d"

definition valid_date :: "nat \<Rightarrow> nat \<Rightarrow> nat \<Rightarrow> bool" where
  "valid_date y m d =
     (1 \<le> y \<and> y \<le> 9999 \<and> 1 \<le> m \<and> m \<le> 12 \<and> 1 \<le> d \<and> d \<le> days_in_month y m)"

text \<open>\<^verbatim>\<open>datetime(year, month, day)\<close>: midnight, naive; \<^verbatim>\<open>ValueError\<close> when the
  numbers are no calendar date.\<close>

definition midnight :: "nat \<Rightarrow> nat \<Rightarrow> nat \<Rightarrow> datetime" where
  "midnight y m d =
     \<lparr>year = y, month = m, day = d, hour = 0, minute = 0, second = 0, microsecond = 0,
      tzinfo = None\<rparr>"

definition datetime_new :: "nat \<Rightarrow> nat \<Rightarrow> nat \<Rightarrow> error + datetime" where
  "datetime_new y m d = (if valid_date y m d then Inr (midnight y m d) else Inl ValueError)"

definition to_microseconds :: "datetime \<Rightarrow> int" where
  "to_microseconds t =
     (((int (ymd2ord (year t) (month t) (day t)) * 24 + int (hour t)) * 60 + int (minute t)) * 60
        + int (second t)) * 1000000 + int (microsecond t)"

text \<open>\<^verbatim>\<open>a - b\<close> is a \<^verbatim>\<open>timedelta\<close>, here its length in microseconds; a naive and an
  aware value cannot be subtracted (\<^verbatim>\<open>TypeError\<close>).\<close>

definition datetime_sub :: "datetime \<Rightarrow> datetime \<Rightarrow> error + int" where
  "datetime_sub a b =
     (case (tzinfo a, tzinfo b) of
        (None, None) \<Rightarrow> Inr (to_microseconds a - to_microseconds b)
      | (Some oa, Some ob) \<Rightarrow> Inr ((to_microseconds a - oa) - (to_microseconds b - ob))
      | _ \<Rightarrow> Inl TypeError)"

text \<open>\<^verbatim>\<open>timedelta.days\<close>: a \<^verbatim>\<open>timedelta\<close> is normalised with \<open>0 \<le> seconds < 86400\<close>,
  so \<open>days\<close> is the floor of the length in days.\<close>

definition timedelta_days :: "int \<Rightarrow> int" where
  "timedelta_days td = td div 86400000000"

section \<open>Data model\<close>

text \<open>The value under the key \<^verbatim>\<open>'deadline_date'\<close> of a funding dict: the key may be
  missing, and the value is \<^verbatim>\<open>None\<close>, a \<^verbatim>\<open>datetime\<close> or a string.\<close>

datatype deadline_val = Missing | PyNone | PyDatetime datetime | PyStr ustring

text \<open>A funding dict as every extractor builds it (the seven keys \<^verbatim>\<open>id, title, url,
  deadline, deadline_date, source, description\<close>), with the three keys \<^verbatim>\<open>process_funding\<close>
  adds; \<open>None\<close> there means the key is not set yet.\<close>

record funding =
  fund_id :: ustring
  title :: ustring
  url :: ustring
  deadline :: "ustring option"
  deadline_date :: deadline_val
  source :: ustring
  description :: ustring
  matched_keywords :: "ustring list option"
  is_high_priority :: "bool option"
  closing_soon :: "bool option"

text \<open>An entry of \<^verbatim>\<open>seen_data['funding']\<close>. \<open>first_seen\<close> is stored as the
  \<^verbatim>\<open>isoformat()\<close> text of the clock reading kept here.\<close>

record seen_record =
  first_seen :: datetime
  seen_title :: ustring
  seen_url :: ustring
  seen_source :: ustring
  seen_deadline :: "ustring option"
  seen_matched_keywords :: "ustring list"

text \<open>The database: \<^verbatim>\<open>{"funding": {...}, "last_updated": ...}\<close>. A Python dict keeps
  insertion order, so \<open>funding_db\<close> is an association list.\<close>

record seen_data =
  funding_db :: "(ustring \<times> seen_record) list"
  last_updated :: "datetime option"

section \<open>Keyword configuration and matching (\<^verbatim>\<open>scraper/main.py\<close>)\<close>

definition HIGH_PRIORITY_KEYWORDS :: "ustring list" where
  "HIGH_PRIORITY_KEYWORDS = map ustr
     [''educatie'', ''educatia'', ''educational'', ''educationale'', ''educativ'',
      ''steam'', ''stiinta'', ''stiinte'', ''science'',
      ''tineret'', ''tineri'', ''youth'',
      ''copii'', ''elevi'', ''studenti'',
      ''scoala'', ''scoli'', ''scolar'',
      ''ong'', ''ngo'', ''societate civila'', ''civil society'',
      ''non-formal'', ''nonformal'',
      ''nerambursabil'', ''nerambursabila'', ''grant'', ''granturi'']"

definition MEDIUM_PRIORITY_KEYWORDS :: "ustring list" where
  "MEDIUM_PRIORITY_KEYWORDS = map ustr
     [''cultura'', ''cultural'', ''culturale'',
      ''inovare'', ''inovatie'', ''innovation'',
      ''digital'', ''digitalizare'', ''tehnologie'', ''technology'',
      ''capacitare'', ''formare profesionala'',
      ''comunitate'', ''comunitar'', ''community'',
      ''incluziune'', ''incluziv'',
      ''voluntariat'', ''civic'', ''civica'',
      ''sponsorizare'', ''mecenatul'',
      ''sustenabil'', ''dezvoltare durabila'']"

definition ALL_KEYWORDS :: "ustring list" where
  "ALL_KEYWORDS = HIGH_PRIORITY_KEYWORDS @ MEDIUM_PRIORITY_KEYWORDS"

text \<open>The pattern \<^verbatim>\<open>r'\b' + re.escape(keyword.lower()) + r'\b'\<close>.\<close>

definition keyword_pattern :: "unicode \<Rightarrow> ustring \<Rightarrow> regex" where
  "keyword_pattern U keyword = Cat Boundary (Cat (re_escape (py_lower U keyword)) Boundary)"

text \<open>\<^verbatim>\<open>f"{funding.get('title', '')} {funding.get('description', '')}".lower()\<close>\<close>

definition match_text :: "unicode \<Rightarrow> funding \<Rightarrow> ustring" where
  "match_text U item = py_lower U (title item @ [32] @ description item)"

definition keyword_hit :: "unicode \<Rightarrow> ustring \<Rightarrow> ustring \<Rightarrow> bool" where
  "keyword_hit U text keyword = (re_search U (keyword_pattern U keyword) text \<noteq> None)"

definition match_keywords :: "unicode \<Rightarrow> funding \<Rightarrow> ustring list" where
  "match_keywords U item = filter (keyword_hit U (match_text U item)) ALL_KEYWORDS"

text \<open>\<^verbatim>\<open>is_closing_soon\<close>. \<open>fromisoformat\<close> is \<^verbatim>\<open>datetime.fromisoformat\<close> of the standard
  library (a parameter), \<open>now\<close> the value \<^verbatim>\<open>datetime.now()\<close> returns. An empty string is
  falsy, like \<^verbatim>\<open>None\<close>; only \<^verbatim>\<open>ValueError\<close> is caught.\<close>

definition days_left_ok :: "datetime \<Rightarrow> datetime \<Rightarrow> error + bool" where
  "days_left_ok dl now =
     (case datetime_sub dl now of
        Inl e \<Rightarrow> Inl e
      | Inr td \<Rightarrow> Inr (0 \<le> timedelta_days td \<and> timedelta_days td \<le> 14))"

definition is_closing_soon :: "(ustring \<Rightarrow> error + datetime) \<Rightarrow> datetime \<Rightarrow> funding \<Rightarrow> error + bool" where
  "is_closing_soon fromisoformat now item =
     (case deadline_date item of
        Missing \<Rightarrow> Inr False
      | PyNone \<Rightarrow> Inr False
      | PyDatetime dl \<Rightarrow> days_left_ok dl now
      | PyStr s \<Rightarrow>
          if s = [] then Inr False
          else (case fromisoformat s of
                  Inl ValueError \<Rightarrow> Inr False
                | Inl e \<Rightarrow> Inl e
                | Inr dl \<Rightarrow> days_left_ok dl now))"

section \<open>Seen-state tracking (\<^verbatim>\<open>process_funding\<close>, \<^verbatim>\<open>cleanup_old_funding\<close>, \<^verbatim>\<open>main\<close>)\<close>

definition db_keys :: "seen_data \<Rightarrow> ustring list" where
  "db_keys sd = map fst (funding_db sd)"

text \<open>The snapshot stored for a new item.\<close>

definition snapshot :: "datetime \<Rightarrow> funding \<Rightarrow> ustring list \<Rightarrow> seen_record" where
  "snapshot now item matched =
     \<lparr>first_seen = now, seen_title = title item, seen_url = url item, seen_source = source item,
      seen_deadline = deadline item, seen_matched_keywords = matched\<rparr>"

text \<open>The state of the loop of \<^verbatim>\<open>process_funding\<close>: the number of clock readings
  taken so far, \<^verbatim>\<open>new_matching\<close>, \<^verbatim>\<open>all_matching\<close> and the (mutated) database. The
  clock is a parameter: \<open>clock n\<close> is the wall time at the \<open>n\<close>-th reading, and
  \<^verbatim>\<open>datetime.now()\<close>, called without a time zone, returns it as a naive value.\<close>

definition now :: "(nat \<Rightarrow> datetime) \<Rightarrow> nat \<Rightarrow> datetime" where
  "now clock n = (clock n)\<lparr>tzinfo := None\<rparr>"

type_synonym loop_state = "nat \<times> funding list \<times> funding list \<times> seen_data"

definition process_item ::
  "unicode \<Rightarrow> (ustring \<Rightarrow> error + datetime) \<Rightarrow> (nat \<Rightarrow> datetime) \<Rightarrow> loop_state \<Rightarrow> funding
     \<Rightarrow> error + loop_state" where
  "process_item U fromisoformat clock st item =
     (case st of (t, new_matching, all_matching, seen) \<Rightarrow>
        let matched = match_keywords U item in
        if matched = [] then Inr st
        else (case is_closing_soon fromisoformat (now clock t) item of
                Inl e \<Rightarrow> Inl e
              | Inr soon \<Rightarrow>
                  let item' = item\<lparr>matched_keywords := Some matched,
                                    is_high_priority := Some (list_ex (\<lambda>k. k \<in> set HIGH_PRIORITY_KEYWORDS) matched),
                                    closing_soon := Some soon\<rparr>
                  in if fund_id item \<notin> set (db_keys seen)
                     then Inr (t + 2, new_matching @ [item'], all_matching @ [item'],
                               seen\<lparr>funding_db := AList.update (fund_id item)
                                       (snapshot (now clock (t + 1)) item matched) (funding_db seen)\<rparr>)
                     else Inr (t + 2, new_matching, all_matching @ [item'], seen)))"

text \<open>A \<^verbatim>\<open>for\<close> loop whose body may raise: the first error ends it.\<close>

fun for_each :: "('s \<Rightarrow> 'a \<Rightarrow> error + 's) \<Rightarrow> 'a list \<Rightarrow> 's \<Rightarrow> error + 's" where
  "for_each body [] st = Inr st"
| "for_each body (x # xs) st = (case body st x of Inl e \<Rightarrow> Inl e | Inr st' \<Rightarrow> for_each body xs st')"

definition process_funding ::
  "unicode \<Rightarrow> (ustring \<Rightarrow> error + datetime) \<Rightarrow> (nat \<Rightarrow> datetime) \<Rightarrow> nat \<Rightarrow> funding list \<Rightarrow> seen_data
     \<Rightarrow> error + loop_state" where
  "process_funding U fromisoformat clock t all_funding seen =
     for_each (process_item U fromisoformat clock) all_funding (t, [], [], seen)"

text \<open>\<^verbatim>\<open>del d[k]\<close> raises \<^verbatim>\<open>KeyError\<close> when the key is not there.\<close>

definition dict_del :: "seen_data \<Rightarrow> ustring \<Rightarrow> error + seen_data" where
  "dict_del seen fid =
     (if fid \<in> set (db_keys seen)
      then Inr (seen\<lparr>funding_db := AList.delete fid (funding_db seen)\<rparr>)
      else Inl KeyError)"

definition cleanup_old_funding :: "seen_data \<Rightarrow> ustring set \<Rightarrow> error + (seen_data \<times> nat)" where
  "cleanup_old_funding seen current_ids =
     (let old = filter (\<lambda>fid. fid \<notin> current_ids) (db_keys seen)
      in case for_each dict_del old seen of
           Inl e \<Rightarrow> Inl e
         | Inr seen' \<Rightarrow> Inr (seen', length old))"

text \<open>One run of \<^verbatim>\<open>main\<close>, from the loaded database and the scraped items to what the
  run hands to its collaborators: the items passed to \<^verbatim>\<open>send_notification\<close> (whose network
  outcome \<open>send\<close> is a parameter), the database saved and the items given to the dashboard.\<close>

record run_output =
  notified :: "funding list"
  notification_count :: nat
  saved :: seen_data
  dashboard_items :: "funding list"
  removed :: nat

definition main_run ::
  "unicode \<Rightarrow> (ustring \<Rightarrow> error + datetime) \<Rightarrow> (nat \<Rightarrow> datetime) \<Rightarrow> (funding \<Rightarrow> bool)
     \<Rightarrow> seen_data \<Rightarrow> funding list \<Rightarrow> error + run_output" where
  "main_run U fromisoformat clock send seen all_funding =
     (let current_ids = fund_id ` set all_funding
      in case process_funding U fromisoformat clock 0 all_funding seen of
           Inl e \<Rightarrow> Inl e
         | Inr (t, new_matching, all_matching, seen1) \<Rightarrow>
             (case cleanup_old_funding seen1 current_ids of
                Inl e \<Rightarrow> Inl e
              | Inr (seen2, n) \<Rightarrow>
                  Inr \<lparr>notified = new_matching,
                       notification_count = length (filter send new_matching),
                       saved = seen2\<lparr>last_updated := Some (now clock t)\<rparr>,
                       dashboard_items = all_matching,
                       removed = n\<rparr>))"

section \<open>Auxiliary notions used to state the properties\<close>

text \<open>An excerpt of the Unicode tables, used only to run the definitions on concrete
  inputs: ASCII and the Romanian letters with diacritics (word characters; the capitals
  lower-case to the small letters and each decomposes into its base letter and a combining
  mark). Every other code point is left without properties.\<close>

definition ro_lower :: "codepoint \<Rightarrow> codepoint" where
  "ro_lower c =
     (if c = 0x102 then 0x103 else if c = 0xC2 then 0xE2 else if c = 0xCE then 0xEE
      else if c = 0x218 then 0x219 else if c = 0x21A then 0x21B else ascii_lower c)"

definition ro_decomposition :: "codepoint \<Rightarrow> ustring" where
  "ro_decomposition c =
     (if c = 0x103 then [0x61, 0x306] else if c = 0xE2 then [0x61, 0x302]
      else if c = 0xEE then [0x69, 0x302] else if c = 0x219 then [0x73, 0x326]
      else if c = 0x21B then [0x74, 0x326] else if c = 0x102 then [0x41, 0x306]
      else if c = 0xC2 then [0x41, 0x302] else if c = 0xCE then [0x49, 0x302]
      else if c = 0x218 then [0x53, 0x326] else if c = 0x21A then [0x54, 0x326]
      else [c])"

definition sample :: unicode where
  "sample =
     \<lparr>isalnum = (\<lambda>c. ascii_alnum c \<or> c \<in> {0x102, 0x103, 0xC2, 0xE2, 0xCE, 0xEE, 0x218, 0x219, 0x21A, 0x21B}),
      isspace = ascii_space,
      decimal = ascii_decimal,
      lower_at = (\<lambda>behind c rest. [ro_lower c]),
      decomposition = ro_decomposition,
      combining = (\<lambda>c. if c = 0x302 \<or> c = 0x306 then 230 else if c = 0x326 then 202 else 0)\<rparr>"

text \<open>The keyword \<open>k\<close> stands at this position of the text between two word boundaries.\<close>

definition word_here :: "unicode \<Rightarrow> ustring \<Rightarrow> ustring \<Rightarrow> ustring \<Rightarrow> bool" where
  "word_here U k behind rest =
     (if prefix k rest
      then at_boundary U behind rest \<and> at_boundary U (rev k @ behind) (drop (length k) rest)
      else False)"

fun whole_word_in :: "unicode \<Rightarrow> ustring \<Rightarrow> ustring \<Rightarrow> ustring \<Rightarrow> bool" where
  "whole_word_in U k behind [] = word_here U k behind []"
| "whole_word_in U k behind (x # xs) =
     (if word_here U k behind (x # xs) then True else whole_word_in U k (x # behind) xs)"

text \<open>An item with the three keys \<^verbatim>\<open>process_funding\<close> sets on a matching item.\<close>

definition classify :: "unicode \<Rightarrow> funding \<Rightarrow> bool \<Rightarrow> funding" where
  "classify U item soon =
     item\<lparr>matched_keywords := Some (match_keywords U item),
          is_high_priority := Some (list_ex (\<lambda>k. k \<in> set HIGH_PRIORITY_KEYWORDS) (match_keywords U item)),
          closing_soon := Some soon\<rparr>"

text \<open>The deadline of an item cannot make \<^verbatim>\<open>is_closing_soon\<close> raise: it is absent, a
  naive \<^verbatim>\<open>datetime\<close> (all the extractors produce), or a string that
  \<^verbatim>\<open>fromisoformat\<close> rejects or reads as a naive value.\<close>

definition deadline_ok :: "(ustring \<Rightarrow> error + datetime) \<Rightarrow> funding \<Rightarrow> bool" where
  "deadline_ok fromisoformat item =
     (case deadline_date item of
        PyDatetime dl \<Rightarrow> tzinfo dl = None
      | PyStr s \<Rightarrow> s = [] \<or> (case fromisoformat s of Inl e \<Rightarrow> e = ValueError | Inr dl \<Rightarrow> tzinfo dl = None)
      | _ \<Rightarrow> True)"

text \<open>The items that are new to a database with the given keys: the first item of each
  id that is not a key yet, in order.\<close>

fun brand_new :: "ustring list \<Rightarrow> funding list \<Rightarrow> funding list" where
  "brand_new keys [] = []"
| "brand_new keys (x # xs) =
     (if fund_id x \<in> set keys then brand_new keys xs else x # brand_new (keys @ [fund_id x]) xs)"

text \<open>Concrete inputs on which the definitions are run.\<close>

definition fromiso0 :: "ustring \<Rightarrow> error + datetime" where
  "fromiso0 s = Inl ValueError"

definition clock0 :: "nat \<Rightarrow> datetime" where
  "clock0 n = midnight 2026 1 (n + 1)"

definition listing :: "string \<Rightarrow> string \<Rightarrow> string \<Rightarrow> funding" where
  "listing i t d =
     \<lparr>fund_id = ustr i, title = ustr t, url = ustr ''https://x.ro/a'', deadline = None,
      deadline_date = PyNone, source = ustr ''afcn'', description = ustr d,
      matched_keywords = None, is_high_priority = None, closing_soon = None\<rparr>"

definition empty_db :: seen_data where
  "empty_db = \<lparr>funding_db = [], last_updated = None\<rparr>"

definition three :: "funding list" where
  "three = [listing ''afcn_1'' ''ONG'' [], listing ''afcn_2'' ''Program de granturi'' [],
            listing ''afcn_3'' ''Festival'' ''eveniment cultural'']"

definition anunt :: funding where
  "anunt = listing ''afcn_9'' ''Anunt general'' []"

definition festival :: funding where
  "festival = listing ''afcn_7'' ''Festival local'' ''eveniment cultural''"

definition apel :: funding where
  "apel = listing ''afcn_8'' ''Apel de proiecte STEAM pentru elevi'' []"

definition stored :: seen_data where
  "stored = \<lparr>funding_db = [(ustr ''afcn_7'', snapshot (midnight 2025 1 1) anunt [ustr ''ong''])],
             last_updated = None\<rparr>"

text \<open>The date-only form \<^verbatim>\<open>YYYY-MM-DD\<close> of \<^verbatim>\<open>datetime.fromisoformat\<close>: an instance of
  the parameter on which the definitions are run.\<close>

definition iso_digit :: "codepoint \<Rightarrow> bool" where
  "iso_digit c = (48 \<le> c \<and> c \<le> 57)"

definition fromisoformat_date :: "ustring \<Rightarrow> error + datetime" where
  "fromisoformat_date s =
     (case s of
        [y1, y2, y3, y4, h1, m1, m2, h2, d1, d2] \<Rightarrow>
          if h1 = 45 \<and> h2 = 45 \<and> list_all iso_digit [y1, y2, y3, y4, m1, m2, d1, d2]
          then datetime_new ((y1 - 48) * 1000 + (y2 - 48) * 100 + (y3 - 48) * 10 + (y4 - 48))
                 ((m1 - 48) * 10 + (m2 - 48)) ((d1 - 48) * 10 + (d2 - 48))
          else Inl ValueError
      | _ \<Rightarrow> Inl ValueError)"

definition noon :: datetime where
  "noon = (midnight 2026 1 1)\<lparr>hour := 12\<rparr>"

definition due :: "deadline_val \<Rightarrow> funding" where
  "due d = (listing ''afcn_5'' ''Program de granturi'' [])\<lparr>deadline_date := d\<rparr>"

definition day_us :: int where
  "day_us = 86400000000"

text \<open>The lower-case image of a stretch of text that is followed by \<open>after\<close>.\<close>

fun lower_seg :: "unicode \<Rightarrow> ustring \<Rightarrow> ustring \<Rightarrow> ustring \<Rightarrow> ustring" where
  "lower_seg U behind [] after = []"
| "lower_seg U behind (x # xs) after = lower_at U behind x (xs @ after) @ lower_seg U (x # behind) xs after"

text \<open>Lower-casing keeps a character that is no word character out of the words: what
  \<^verbatim>\<open>str.lower\<close> emits for it is not empty and has no word character. (The Unicode tables
  have this property.)\<close>

definition lower_keeps_nonword :: "unicode \<Rightarrow> bool" where
  "lower_keeps_nonword U =
     (\<forall>behind c rest. \<not> is_word U c \<longrightarrow>
        lower_at U behind c rest \<noteq> [] \<and> (\<forall>x\<in>set (lower_at U behind c rest). \<not> is_word U x))"



section \<open>Keyword matching is whole-word matching\<close>

lemma sample_conformant: "ascii_conformant sample"
  by (simp add: ascii_conformant_def sample_def ro_lower_def ascii_lower_def)

lemma rmatch_re_escape:
  "rmatch U (re_escape k) (caps, behind, rest) =
     (if prefix k rest then [(caps, rev k @ behind, drop (length k) rest)] else [])"
proof (induction k arbitrary: behind rest)
  case Nil
  show ?case by (simp add: re_escape_def)
next
  case (Cons c k)
  have unfold: "re_escape (c # k) = Cat (Sym (Chr c)) (re_escape k)"
    by (simp add: re_escape_def)
  show ?case
  proof (cases rest)
    case Nil
    then show ?thesis by (simp add: unfold)
  next
    case (Cons x xs)
    then show ?thesis using Cons.IH [of "x # behind" xs] by (auto simp: unfold)
  qed
qed

lemma rmatch_keyword:
  "rmatch U (Cat Boundary (Cat (re_escape k) Boundary)) (caps, behind, rest) =
     (if word_here U k behind rest then [(caps, rev k @ behind, drop (length k) rest)] else [])"
  by (simp add: rmatch_re_escape word_here_def)

lemma search_keyword:
  "(search_from U (Cat Boundary (Cat (re_escape k) Boundary)) behind rest \<noteq> None)
     = whole_word_in U k behind rest"
proof (induction rest arbitrary: behind)
  case Nil
  show ?case by (simp only: search_from.simps rmatch_keyword whole_word_in.simps) simp
next
  case (Cons x xs)
  show ?case
    by (simp only: search_from.simps rmatch_keyword whole_word_in.simps Cons.IH [symmetric]) simp
qed

lemma keyword_hit_whole_word:
  "keyword_hit U text k = whole_word_in U (py_lower U k) [] text"
  by (simp only: keyword_hit_def keyword_pattern_def re_search_def search_keyword)

lemma whole_word_in_iff:
  "whole_word_in U k behind rest \<longleftrightarrow>
     (\<exists>pre post. rest = pre @ k @ post \<and> at_boundary U (rev pre @ behind) (k @ post)
        \<and> at_boundary U (rev k @ rev pre @ behind) post)"
proof (induction rest arbitrary: behind)
  case Nil
  show ?case by (auto simp: word_here_def)
next
  case (Cons x xs)
  show ?case (is "?L = ?R")
  proof
    assume L: ?L
    show ?R
    proof (cases "word_here U k behind (x # xs)")
      case True
      then obtain post where "x # xs = k @ post"
        by (auto simp: word_here_def prefix_def split: if_splits)
      with True show ?thesis
        by (intro exI [of _ "[]"] exI [of _ post]) (auto simp: word_here_def)
    next
      case False
      with L have "whole_word_in U k (x # behind) xs" by simp
      then obtain pre post where "xs = pre @ k @ post"
          "at_boundary U (rev pre @ x # behind) (k @ post)"
          "at_boundary U (rev k @ rev pre @ x # behind) post"
        using Cons.IH by blast
      then show ?thesis
        by (intro exI [of _ "x # pre"] exI [of _ post]) simp
    qed
  next
    assume ?R
    then obtain pre post where eq: "x # xs = pre @ k @ post"
        and b1: "at_boundary U (rev pre @ behind) (k @ post)"
        and b2: "at_boundary U (rev k @ rev pre @ behind) post" by blast
    show ?L
    proof (cases pre)
      case Nil
      with eq b1 b2 have "word_here U k behind (x # xs)" by (simp add: word_here_def)
      then show ?thesis by simp
    next
      case (Cons y pre')
      with eq b1 b2 have "whole_word_in U k (x # behind) xs"
        using Cons.IH [of "x # behind"] by auto
      then show ?thesis by simp
    qed
  qed
qed

lemma lower_ascii:
  assumes "ascii_conformant U" "\<forall>c\<in>set s. c < 128"
  shows "lower_from U behind s = map ascii_lower s"
  using assms by (induction s arbitrary: behind) (auto simp: ascii_conformant_def)

lemma is_word_ascii:
  "ascii_conformant U \<Longrightarrow> c < 128 \<Longrightarrow> is_word U c = (ascii_alnum c \<or> c = 95)"
  by (simp add: ascii_conformant_def is_word_def)

lemma lower_at_ascii:
  "ascii_conformant U \<Longrightarrow> c < 128 \<Longrightarrow> lower_at U behind c rest = [ascii_lower c]"
  by (simp add: ascii_conformant_def)

lemmas kw_defs = ALL_KEYWORDS_def HIGH_PRIORITY_KEYWORDS_def MEDIUM_PRIORITY_KEYWORDS_def ustr_def

section \<open>The loop of \<^verbatim>\<open>process_funding\<close> and the pruning\<close>

lemma update_absent: "k \<notin> fst ` set al \<Longrightarrow> AList.update k v al = al @ [(k, v)]"
  by (induction al) auto

lemma process_item_nomatch:
  "match_keywords U it = [] \<Longrightarrow> process_item U f clk st it = Inr st"
  by (cases st) (simp add: process_item_def)

lemma is_closing_soon_ok:
  assumes "deadline_ok f it" "tzinfo n = None"
  shows "\<exists>b. is_closing_soon f n it = Inr b"
  using assms
  by (auto simp: deadline_ok_def is_closing_soon_def days_left_ok_def datetime_sub_def
      split: deadline_val.splits sum.splits error.splits option.splits)

lemma process_item_match:
  assumes "match_keywords U it \<noteq> []" "is_closing_soon f (now clk t) it = Inr soon"
  shows "process_item U f clk (t, new, allm, seen) it =
     Inr (t + 2,
          (if fund_id it \<in> set (db_keys seen) then new else new @ [classify U it soon]),
          allm @ [classify U it soon],
          (if fund_id it \<in> set (db_keys seen) then seen
           else seen\<lparr>funding_db := funding_db seen @
                  [(fund_id it, snapshot (now clk (t + 1)) it (match_keywords U it))]\<rparr>))"
  using assms
  by (simp add: process_item_def classify_def Let_def update_absent db_keys_def)

lemma process_item_raise:
  assumes "match_keywords U it \<noteq> []" "is_closing_soon f (now clk t) it = Inl e"
  shows "process_item U f clk (t, new, allm, seen) it = Inl e"
  using assms by (simp add: process_item_def Let_def)

lemma process_item_cases:
  assumes "process_item U f clk (t, new, allm, seen) it = Inr st'"
  obtains (skip) "match_keywords U it = []" "st' = (t, new, allm, seen)"
  | (known) soon where "match_keywords U it \<noteq> []" "fund_id it \<in> set (db_keys seen)"
      "st' = (t + 2, new, allm @ [classify U it soon], seen)"
  | (fresh) soon where "match_keywords U it \<noteq> []" "fund_id it \<notin> set (db_keys seen)"
      "st' = (t + 2, new @ [classify U it soon], allm @ [classify U it soon],
              seen\<lparr>funding_db := funding_db seen @
                  [(fund_id it, snapshot (now clk (t + 1)) it (match_keywords U it))]\<rparr>)"
proof (cases "match_keywords U it = []")
  case True
  with assms show ?thesis using skip by (simp add: process_item_nomatch)
next
  case False
  show ?thesis
  proof (cases "is_closing_soon f (now clk t) it")
    case (Inl e)
    with False assms show ?thesis by (simp add: process_item_raise)
  next
    case (Inr soon)
    with False assms show ?thesis
      using known [of soon] fresh [of soon] by (simp add: process_item_match split: if_splits)
  qed
qed

lemma match_keywords_classify [simp]: "match_keywords U (classify U it soon) = match_keywords U it"
  by (simp add: match_keywords_def match_text_def classify_def)

lemma fund_id_classify [simp]: "fund_id (classify U it soon) = fund_id it"
  by (simp add: classify_def)

lemma snapshot_classify [simp]: "snapshot n (classify U it soon) kws = snapshot n it kws"
  by (simp add: snapshot_def classify_def)

lemma loop_result:
  assumes "for_each (process_item U f clk) items (t, new0, all0, sd0) = Inr (t', new, allm, sd)"
  shows "\<exists>a' e'. allm = all0 @ a' \<and> new = new0 @ brand_new (db_keys sd0) a' \<and>
       sd = sd0\<lparr>funding_db := funding_db sd0 @ e'\<rparr> \<and>
       list_all2 (\<lambda>x it. \<exists>soon. x = classify U it soon) a' (filter (\<lambda>it. match_keywords U it \<noteq> []) items) \<and>
       list_all2 (\<lambda>e x. fst e = fund_id x \<and> (\<exists>n. snd e = snapshot (now clk n) x (match_keywords U x)))
          e' (brand_new (db_keys sd0) a')"
  using assms
proof (induction items arbitrary: t new0 all0 sd0)
  case Nil
  then show ?case by simp
next
  case (Cons it items)
  from Cons.prems obtain st1 where
    step: "process_item U f clk (t, new0, all0, sd0) it = Inr st1"
    and rest: "for_each (process_item U f clk) items st1 = Inr (t', new, allm, sd)"
    by (auto split: sum.splits)
  from step show ?case
  proof (cases rule: process_item_cases)
    case skip
    with rest Cons.IH [of t new0 all0 sd0] show ?thesis by simp
  next
    case (known soon)
    from rest known(3) Cons.IH [of "t + 2" new0 "all0 @ [classify U it soon]" sd0]
    obtain a' e' where
      "allm = (all0 @ [classify U it soon]) @ a'" "new = new0 @ brand_new (db_keys sd0) a'"
      "sd = sd0\<lparr>funding_db := funding_db sd0 @ e'\<rparr>"
      "list_all2 (\<lambda>x it. \<exists>soon. x = classify U it soon) a' (filter (\<lambda>it. match_keywords U it \<noteq> []) items)"
      "list_all2 (\<lambda>e x. fst e = fund_id x \<and> (\<exists>n. snd e = snapshot (now clk n) x (match_keywords U x)))
          e' (brand_new (db_keys sd0) a')"
      by auto
    with known(1,2) show ?thesis
      by (intro exI [of _ "classify U it soon # a'"] exI [of _ e']) auto
  next
    case (fresh soon)
    let ?c = "classify U it soon"
    let ?sd1 = "sd0\<lparr>funding_db := funding_db sd0 @
                  [(fund_id it, snapshot (now clk (t + 1)) it (match_keywords U it))]\<rparr>"
    have keys1: "db_keys ?sd1 = db_keys sd0 @ [fund_id it]" by (simp add: db_keys_def)
    from rest fresh(3) Cons.IH [of "t + 2" "new0 @ [?c]" "all0 @ [?c]" ?sd1]
    obtain a' e' where
      "allm = (all0 @ [?c]) @ a'" "new = (new0 @ [?c]) @ brand_new (db_keys ?sd1) a'"
      "sd = ?sd1\<lparr>funding_db := funding_db ?sd1 @ e'\<rparr>"
      "list_all2 (\<lambda>x it. \<exists>soon. x = classify U it soon) a' (filter (\<lambda>it. match_keywords U it \<noteq> []) items)"
      "list_all2 (\<lambda>e x. fst e = fund_id x \<and> (\<exists>n. snd e = snapshot (now clk n) x (match_keywords U x)))
          e' (brand_new (db_keys ?sd1) a')"
      by auto
    with fresh(1,2) keys1 show ?thesis
      by (intro exI [of _ "?c # a'"]
            exI [of _ "(fund_id it, snapshot (now clk (t + 1)) it (match_keywords U it)) # e'"])
         auto
  qed
qed


lemma now_naive [simp]: "tzinfo (now clk n) = None"
  by (simp add: now_def)

lemma process_item_total:
  assumes "deadline_ok f it"
  shows "\<exists>st'. process_item U f clk st it = Inr st'"
proof -
  obtain t new allm seen where fields: "st = (t, new, allm, seen)"
    by (cases st rule: prod_cases4)
  show ?thesis
  proof (cases "match_keywords U it = []")
    case True
    then show ?thesis by (metis process_item_nomatch)
  next
    case False
    from is_closing_soon_ok [OF assms, of "now clk t"]
    obtain b where "is_closing_soon f (now clk t) it = Inr b" by auto
    from process_item_match [OF False this] fields show ?thesis by metis
  qed
qed

lemma for_each_total:
  assumes "\<forall>it\<in>set items. deadline_ok f it"
  shows "\<exists>st'. for_each (process_item U f clk) items st = Inr st'"
  using assms
proof (induction items arbitrary: st)
  case Nil
  show ?case by (metis for_each.simps(1))
next
  case (Cons it items)
  from Cons.prems process_item_total [of f it U clk st]
  obtain st1 where "process_item U f clk st it = Inr st1" by auto
  with Cons show ?case by simp
qed

lemma brand_new_subset: "set (brand_new keys xs) \<subseteq> set xs"
  by (induction xs arbitrary: keys) auto

lemma brand_new_fresh: "x \<in> set (brand_new keys xs) \<Longrightarrow> fund_id x \<notin> set keys"
proof (induction xs arbitrary: keys)
  case Nil
  then show ?case by simp
next
  case (Cons y ys)
  show ?case
  proof (cases "fund_id y \<in> set keys")
    case True
    with Cons show ?thesis by simp
  next
    case False
    with Cons.prems have "x = y \<or> x \<in> set (brand_new (keys @ [fund_id y]) ys)" by simp
    then show ?thesis
    proof
      assume "x = y"
      with False show ?thesis by simp
    next
      assume "x \<in> set (brand_new (keys @ [fund_id y]) ys)"
      from Cons.IH [OF this] show ?thesis by simp
    qed
  qed
qed

lemma brand_new_covers:
  "x \<in> set xs \<Longrightarrow> fund_id x \<in> set keys \<union> fund_id ` set (brand_new keys xs)"
proof (induction xs arbitrary: keys)
  case Nil
  then show ?case by simp
next
  case (Cons y ys)
  show ?case
  proof (cases "x = y")
    case True
    then show ?thesis by auto
  next
    case False
    with Cons.prems have "x \<in> set ys" by simp
    from Cons.IH [OF this, of keys] Cons.IH [OF this, of "keys @ [fund_id y]"]
    show ?thesis by auto
  qed
qed

lemma brand_new_distinct:
  "distinct (map fund_id xs) \<Longrightarrow> brand_new keys xs = filter (\<lambda>x. fund_id x \<notin> set keys) xs"
proof (induction xs arbitrary: keys)
  case Nil
  show ?case by simp
next
  case (Cons y ys)
  then have "brand_new (keys @ [fund_id y]) ys = filter (\<lambda>x. fund_id x \<notin> set (keys @ [fund_id y])) ys"
    by simp
  also have "\<dots> = filter (\<lambda>x. fund_id x \<notin> set keys) ys"
  proof (intro filter_cong refl)
    fix x assume "x \<in> set ys"
    then have "fund_id x \<in> set (map fund_id ys)" by simp
    with Cons.prems have "fund_id x \<noteq> fund_id y" by auto
    then show "(fund_id x \<notin> set (keys @ [fund_id y])) = (fund_id x \<notin> set keys)" by simp
  qed
  finally show ?case using Cons by simp
qed

lemma brand_new_none: "(\<forall>x\<in>set xs. fund_id x \<in> set keys) \<Longrightarrow> brand_new keys xs = []"
  by (induction xs arbitrary: keys) auto

lemma brand_new_ids_distinct:
  "distinct keys \<Longrightarrow> distinct (keys @ map fund_id (brand_new keys xs))"
proof (induction xs arbitrary: keys)
  case Nil
  then show ?case by simp
next
  case (Cons y ys)
  show ?case
  proof (cases "fund_id y \<in> set keys")
    case True
    with Cons show ?thesis by simp
  next
    case False
    with Cons.prems have "distinct (keys @ [fund_id y])" by simp
    from Cons.IH [OF this] False show ?thesis by simp
  qed
qed

lemma delete_as_filter: "AList.delete k al = filter (\<lambda>e. fst e \<noteq> k) al"
  by (induction al) auto

lemma for_each_dict_del:
  assumes "distinct old" "set old \<subseteq> set (db_keys sd)"
  shows "for_each dict_del old sd = Inr (sd\<lparr>funding_db := filter (\<lambda>e. fst e \<notin> set old) (funding_db sd)\<rparr>)"
  using assms
proof (induction old arbitrary: sd)
  case Nil
  show ?case by simp
next
  case (Cons k old)
  let ?sd1 = "sd\<lparr>funding_db := AList.delete k (funding_db sd)\<rparr>"
  from Cons.prems have del: "dict_del sd k = Inr ?sd1" by (simp add: dict_del_def)
  from Cons.prems have "set old \<subseteq> set (db_keys ?sd1)"
    by (force simp: db_keys_def delete_as_filter)
  with Cons.prems Cons.IH [of ?sd1]
  have "for_each dict_del old ?sd1 =
      Inr (?sd1\<lparr>funding_db := filter (\<lambda>e. fst e \<notin> set old) (funding_db ?sd1)\<rparr>)" by simp
  moreover have "filter (\<lambda>e. fst e \<notin> set old) (filter (\<lambda>e. fst e \<noteq> k) (funding_db sd))
      = filter (\<lambda>e. fst e \<notin> set (k # old)) (funding_db sd)"
    by (induction "funding_db sd") (auto intro: filter_cong)
  ultimately show ?case using del by (simp add: delete_as_filter)
qed

lemma cleanup_result:
  assumes "distinct (db_keys seen)"
  shows "cleanup_old_funding seen ids =
     Inr (seen\<lparr>funding_db := filter (\<lambda>e. fst e \<in> ids) (funding_db seen)\<rparr>,
          length (filter (\<lambda>k. k \<notin> ids) (db_keys seen)))"
proof -
  let ?old = "filter (\<lambda>fid. fid \<notin> ids) (db_keys seen)"
  have "for_each dict_del ?old seen =
      Inr (seen\<lparr>funding_db := filter (\<lambda>e. fst e \<notin> set ?old) (funding_db seen)\<rparr>)"
    using assms by (intro for_each_dict_del) auto
  moreover have "filter (\<lambda>e. fst e \<notin> set ?old) (funding_db seen) = filter (\<lambda>e. fst e \<in> ids) (funding_db seen)"
    by (intro filter_cong) (auto simp: db_keys_def)
  ultimately show ?thesis by (simp add: cleanup_old_funding_def Let_def)
qed


lemma list_all2_classify_ids:
  "list_all2 (\<lambda>x it. \<exists>soon. x = classify U it soon) xs its \<Longrightarrow> map fund_id xs = map fund_id its"
  by (induction rule: list_all2_induct) auto

lemma list_all2_entry_keys:
  "list_all2 (\<lambda>e x. fst e = fund_id x \<and> Q e x) es xs \<Longrightarrow> map fst es = map fund_id xs"
  by (induction rule: list_all2_induct) auto

lemma process_funding_facts:
  assumes ok: "\<forall>it\<in>set items. deadline_ok f it"
  obtains t' new allm seen' added where
    "process_funding U f clk t items seen = Inr (t', new, allm, seen')"
    "new = brand_new (db_keys seen) allm"
    "seen' = seen\<lparr>funding_db := funding_db seen @ added\<rparr>"
    "list_all2 (\<lambda>x it. \<exists>soon. x = classify U it soon) allm (filter (\<lambda>it. match_keywords U it \<noteq> []) items)"
    "list_all2 (\<lambda>e x. fst e = fund_id x \<and> (\<exists>n. snd e = snapshot (now clk n) x (match_keywords U x))) added new"
    "db_keys seen' = db_keys seen @ map fund_id new"
proof -
  from for_each_total [OF ok] obtain st where
    run: "for_each (process_item U f clk) items (t, [], [], seen) = Inr st" by blast
  obtain t' new allm seen' where st: "st = (t', new, allm, seen')"
    by (cases st rule: prod_cases4)
  from loop_result [OF run [unfolded st]] obtain added where
    f: "new = brand_new (db_keys seen) allm"
      "seen' = seen\<lparr>funding_db := funding_db seen @ added\<rparr>"
      "list_all2 (\<lambda>x it. \<exists>soon. x = classify U it soon) allm (filter (\<lambda>it. match_keywords U it \<noteq> []) items)"
      "list_all2 (\<lambda>e x. fst e = fund_id x \<and> (\<exists>n. snd e = snapshot (now clk n) x (match_keywords U x)))
         added (brand_new (db_keys seen) allm)"
    by auto
  from f(4) have "map fst added = map fund_id (brand_new (db_keys seen) allm)"
    by (rule list_all2_entry_keys)
  with f(1,2) have "db_keys seen' = db_keys seen @ map fund_id new"
    by (simp add: db_keys_def)
  with that [of t' new allm seen' added] run st f show thesis
    by (simp add: process_funding_def)
qed

lemma match_keywords_nonempty:
  "k \<in> set ALL_KEYWORDS \<Longrightarrow> keyword_hit U (match_text U it) k \<Longrightarrow> match_keywords U it \<noteq> []"
  by (auto simp: match_keywords_def filter_empty_conv)

lemmas hit_eval = keyword_hit_whole_word match_text_def py_lower_def
  word_here_def at_boundary_def is_word_def sample_def ro_lower_def ascii_lower_def ascii_alnum_def ustr_def

lemmas match_eval = match_keywords_def kw_defs hit_eval

lemma listing_ok: "deadline_ok f (listing i t d)"
  by (simp add: deadline_ok_def listing_def)

lemma main_run_facts:
  assumes ok: "\<forall>it\<in>set items. deadline_ok f it" and dist: "distinct (db_keys seen)"
  obtains t' new allm seen' where
    "process_funding U f clk 0 items seen = Inr (t', new, allm, seen')"
    "main_run U f clk send seen items =
       Inr \<lparr>notified = new, notification_count = length (filter send new),
            saved = seen'\<lparr>funding_db := filter (\<lambda>e. fst e \<in> fund_id ` set items) (funding_db seen'),
                          last_updated := Some (now clk t')\<rparr>,
            dashboard_items = allm,
            removed = length (filter (\<lambda>k. k \<notin> fund_id ` set items) (db_keys seen'))\<rparr>"
proof -
  obtain t' new allm seen' added where
    run: "process_funding U f clk 0 items seen = Inr (t', new, allm, seen')"
    and new: "new = brand_new (db_keys seen) allm"
    and seen': "seen' = seen\<lparr>funding_db := funding_db seen @ added\<rparr>"
    and allm: "list_all2 (\<lambda>x it. \<exists>soon. x = classify U it soon) allm
                 (filter (\<lambda>it. match_keywords U it \<noteq> []) items)"
    and added: "list_all2 (\<lambda>e x. fst e = fund_id x
                  \<and> (\<exists>n. snd e = snapshot (now clk n) x (match_keywords U x))) added new"
    and keys: "db_keys seen' = db_keys seen @ map fund_id new"
    by (rule process_funding_facts [OF ok, of U clk 0 seen])
  have "distinct (db_keys seen')"
    using brand_new_ids_distinct [OF dist, of allm] keys new by simp
  from cleanup_result [OF this, of "fund_id ` set items"] run
  have "main_run U f clk send seen items =
       Inr \<lparr>notified = new, notification_count = length (filter send new),
            saved = seen'\<lparr>funding_db := filter (\<lambda>e. fst e \<in> fund_id ` set items) (funding_db seen'),
                          last_updated := Some (now clk t')\<rparr>,
            dashboard_items = allm,
            removed = length (filter (\<lambda>k. k \<notin> fund_id ` set items) (db_keys seen'))\<rparr>"
    by (simp add: main_run_def Let_def)
  with run that show thesis by blast
qed

lemma loop_members_match:
  assumes "process_funding U f clk t items seen = Inr (t', new, allm, seen')"
  shows "\<forall>x\<in>set allm \<union> set new. \<exists>it\<in>set items. \<exists>soon. match_keywords U it \<noteq> [] \<and> x = classify U it soon"
proof -
  from loop_result [OF assms [unfolded process_funding_def]]
  obtain e' where
      n: "new = brand_new (db_keys seen) allm"
      and l: "list_all2 (\<lambda>x it. \<exists>soon. x = classify U it soon) allm (filter (\<lambda>it. match_keywords U it \<noteq> []) items)"
    by auto
  have "\<exists>it\<in>set items. \<exists>soon. match_keywords U it \<noteq> [] \<and> x = classify U it soon" if "x \<in> set allm" for x
  proof -
    from that obtain i where i: "i < length allm" "x = allm ! i" by (auto simp: in_set_conv_nth)
    let ?ms = "filter (\<lambda>it. match_keywords U it \<noteq> []) items"
    from l i have "i < length ?ms" "\<exists>soon. x = classify U (?ms ! i) soon"
      by (auto simp: list_all2_conv_all_nth)
    moreover then have "?ms ! i \<in> set ?ms" by (intro nth_mem)
    ultimately show ?thesis by auto
  qed
  moreover have "set new \<subseteq> set allm" using n brand_new_subset by simp
  ultimately show ?thesis by blast
qed

lemma loop_keys:
  assumes "process_funding U f clk t items seen = Inr (t', new, allm, seen')"
  shows "set (db_keys seen') \<subseteq> set (db_keys seen) \<union> fund_id ` {it \<in> set items. match_keywords U it \<noteq> []}"
    and "\<exists>added. seen' = seen\<lparr>funding_db := funding_db seen @ added\<rparr>"
proof -
  from loop_result [OF assms [unfolded process_funding_def]]
  obtain e' where
      n: "new = brand_new (db_keys seen) allm"
      and s: "seen' = seen\<lparr>funding_db := funding_db seen @ e'\<rparr>"
      and l2: "list_all2 (\<lambda>e x. fst e = fund_id x \<and> (\<exists>n. snd e = snapshot (now clk n) x (match_keywords U x)))
          e' (brand_new (db_keys seen) allm)"
    by auto
  from s show "\<exists>added. seen' = seen\<lparr>funding_db := funding_db seen @ added\<rparr>" by blast
  from l2 have "map fst e' = map fund_id new" unfolding n by (rule list_all2_entry_keys)
  with s have k: "db_keys seen' = db_keys seen @ map fund_id new" by (simp add: db_keys_def)
  have "fund_id x \<in> fund_id ` {it \<in> set items. match_keywords U it \<noteq> []}" if "x \<in> set new" for x
  proof -
    from loop_members_match [OF assms] that
    obtain it soon where "it \<in> set items" "match_keywords U it \<noteq> []" "x = classify U it soon"
      by blast
    then show ?thesis by auto
  qed
  with k show "set (db_keys seen') \<subseteq> set (db_keys seen) \<union> fund_id ` {it \<in> set items. match_keywords U it \<noteq> []}"
    by auto
qed

lemma loop_matching_keys:
  assumes "process_funding U f clk t items seen = Inr (t', new, allm, seen')"
  shows "fund_id ` {it \<in> set items. match_keywords U it \<noteq> []} \<subseteq> set (db_keys seen')"
proof -
  from loop_result [OF assms [unfolded process_funding_def]]
  obtain e' where
      n: "new = brand_new (db_keys seen) allm"
      and s: "seen' = seen\<lparr>funding_db := funding_db seen @ e'\<rparr>"
      and l: "list_all2 (\<lambda>x it. \<exists>soon. x = classify U it soon) allm (filter (\<lambda>it. match_keywords U it \<noteq> []) items)"
      and l2: "list_all2 (\<lambda>e x. fst e = fund_id x \<and> (\<exists>n. snd e = snapshot (now clk n) x (match_keywords U x)))
          e' (brand_new (db_keys seen) allm)"
    by auto
  from l2 have "map fst e' = map fund_id new" unfolding n by (rule list_all2_entry_keys)
  with s have k: "db_keys seen' = db_keys seen @ map fund_id new" by (simp add: db_keys_def)
  have ids: "map fund_id allm = map fund_id (filter (\<lambda>it. match_keywords U it \<noteq> []) items)"
    using l by (rule list_all2_classify_ids)
  show ?thesis
  proof
    fix k assume "k \<in> fund_id ` {it \<in> set items. match_keywords U it \<noteq> []}"
    then have "k \<in> set (map fund_id allm)" by (auto simp: ids)
    then obtain x where x: "x \<in> set allm" "fund_id x = k" by auto
    from brand_new_covers [OF x(1), of "db_keys seen"] x(2) n k
    show "k \<in> set (db_keys seen')" by auto
  qed
qed

lemma main_run_saved_keys:
  assumes ok: "\<forall>it\<in>set items. deadline_ok f it" and dist: "distinct (db_keys seen)"
  shows "\<exists>out. main_run U f clk send seen items = Inr out
     \<and> set (db_keys (saved out)) =
         (set (db_keys seen) \<inter> fund_id ` set items)
           \<union> fund_id ` {it \<in> set items. match_keywords U it \<noteq> []}"
proof -
  obtain t' new allm seen' where
    run: "process_funding U f clk 0 items seen = Inr (t', new, allm, seen')"
    and main: "main_run U f clk send seen items =
       Inr \<lparr>notified = new, notification_count = length (filter send new),
            saved = seen'\<lparr>funding_db := filter (\<lambda>e. fst e \<in> fund_id ` set items) (funding_db seen'),
                          last_updated := Some (now clk t')\<rparr>,
            dashboard_items = allm,
            removed = length (filter (\<lambda>k. k \<notin> fund_id ` set items) (db_keys seen'))\<rparr>"
    by (rule main_run_facts [OF ok dist, of U clk send])
  let ?ids = "fund_id ` set items"
  let ?m = "fund_id ` {it \<in> set items. match_keywords U it \<noteq> []}"
  let ?saved = "seen'\<lparr>funding_db := filter (\<lambda>e. fst e \<in> ?ids) (funding_db seen'),
                          last_updated := Some (now clk t')\<rparr>"
  have sub: "set (db_keys seen') \<subseteq> set (db_keys seen) \<union> ?m"
    by (rule loop_keys(1) [OF run])
  obtain added where "seen' = seen\<lparr>funding_db := funding_db seen @ added\<rparr>"
    using loop_keys(2) [OF run] by blast
  then have sup: "set (db_keys seen) \<subseteq> set (db_keys seen')" by (auto simp: db_keys_def)
  have m_in: "?m \<subseteq> set (db_keys seen')"
  proof
    fix k assume "k \<in> ?m"
    then obtain it where it: "it \<in> set items" "match_keywords U it \<noteq> []" "k = fund_id it" by auto
    with loop_matching_keys [OF run] show "k \<in> set (db_keys seen')" by auto
  qed
  have "set (db_keys ?saved) = set (db_keys seen') \<inter> ?ids"
    by (auto simp: db_keys_def)
  also have "\<dots> = (set (db_keys seen) \<inter> ?ids) \<union> ?m"
    using sub sup m_in by auto
  finally show ?thesis using main by auto
qed

lemma anunt_no_match:
  assumes "ascii_conformant U"
  shows "match_keywords U anunt = []"
  by (simp add: match_keywords_def kw_defs keyword_hit_whole_word match_text_def py_lower_def
      anunt_def listing_def lower_at_ascii [OF assms] is_word_ascii [OF assms]
      word_here_def at_boundary_def ascii_lower_def ascii_alnum_def)

lemma festival_match:
  assumes "ascii_conformant U"
  shows "match_keywords U festival = [ustr ''cultural'']"
  by (simp add: match_keywords_def kw_defs keyword_hit_whole_word match_text_def py_lower_def
      festival_def listing_def lower_at_ascii [OF assms] is_word_ascii [OF assms]
      word_here_def at_boundary_def ascii_lower_def ascii_alnum_def)

lemma apel_match:
  assumes "ascii_conformant U"
  shows "match_keywords U apel = [ustr ''steam'', ustr ''elevi'']"
  by (simp add: match_keywords_def kw_defs keyword_hit_whole_word match_text_def py_lower_def
      apel_def listing_def lower_at_ascii [OF assms] is_word_ascii [OF assms]
      word_here_def at_boundary_def ascii_lower_def ascii_alnum_def)

lemma main_run_members:
  assumes "main_run U f clk send seen items = Inr out"
  shows "\<exists>t' seen'. process_funding U f clk 0 items seen
            = Inr (t', notified out, dashboard_items out, seen')"
  using assms
  by (auto simp: main_run_def Let_def split: sum.splits prod.splits)

lemma classified_fields:
  "matched_keywords (classify U it soon) = Some (match_keywords U it)"
  "is_high_priority (classify U it soon)
     = Some (\<exists>k\<in>set (match_keywords U it). k \<in> set HIGH_PRIORITY_KEYWORDS)"
  by (simp_all add: classify_def list_ex_iff)

lemma single_matching_run:
  assumes "match_keywords U it \<noteq> []" "deadline_date it = PyNone"
  shows "process_funding U f clk t [it] seen =
     Inr (t + 2,
          (if fund_id it \<in> set (db_keys seen) then [] else [classify U it False]),
          [classify U it False],
          (if fund_id it \<in> set (db_keys seen) then seen
           else seen\<lparr>funding_db := funding_db seen @
                  [(fund_id it, snapshot (now clk (t + 1)) it (match_keywords U it))]\<rparr>))"
proof -
  have "is_closing_soon f (now clk t) it = Inr False"
    using assms(2) by (simp add: is_closing_soon_def)
  from process_item_match [OF assms(1) this] show ?thesis
    by (simp add: process_funding_def)
qed

lemma three_match: "\<forall>it\<in>set three. match_keywords sample it \<noteq> []"
proof -
  have "match_keywords sample (listing ''afcn_1'' ''ONG'' []) \<noteq> []"
    by (rule match_keywords_nonempty [of "ustr ''ong''"]) (simp_all add: kw_defs hit_eval listing_def)
  moreover have "match_keywords sample (listing ''afcn_2'' ''Program de granturi'' []) \<noteq> []"
    by (rule match_keywords_nonempty [of "ustr ''granturi''"]) (simp_all add: kw_defs hit_eval listing_def)
  moreover have "match_keywords sample (listing ''afcn_3'' ''Festival'' ''eveniment cultural'') \<noteq> []"
    by (rule match_keywords_nonempty [of "ustr ''cultural''"]) (simp_all add: kw_defs hit_eval listing_def)
  ultimately show ?thesis by (simp add: three_def)
qed


lemma days_window:
  "(0 \<le> timedelta_days td \<and> timedelta_days td \<le> 14) \<longleftrightarrow> (0 \<le> td \<and> td < 15 * day_us)"
proof -
  define q where "q = td div 86400000000"
  define r where "r = td mod 86400000000"
  have "td = 86400000000 * q + r" "0 \<le> r" "r < 86400000000"
    by (simp_all add: q_def r_def)
  then have "(0 \<le> q \<and> q \<le> 14) \<longleftrightarrow> (0 \<le> td \<and> td < 15 * 86400000000)"
    by linarith
  then show ?thesis by (simp add: timedelta_days_def day_us_def q_def)
qed

lemma closing_soon_naive:
  assumes "deadline_date item = PyDatetime dl" "tzinfo dl = None" "tzinfo n = None"
  shows "is_closing_soon f n item
     = Inr (to_microseconds n \<le> to_microseconds dl \<and> to_microseconds dl < to_microseconds n + 15 * day_us)"
proof -
  have "is_closing_soon f n item = Inr (0 \<le> timedelta_days (to_microseconds dl - to_microseconds n)
      \<and> timedelta_days (to_microseconds dl - to_microseconds n) \<le> 14)"
    using assms by (simp add: is_closing_soon_def days_left_ok_def datetime_sub_def)
  then show ?thesis by (simp only: days_window) (simp add: algebra_simps)
qed

lemmas date_eval = to_microseconds_def ymd2ord_def days_before_year_def days_before_month_def
  is_leap_def midnight_def day_us_def

lemma lower_from_append:
  "lower_from U behind (xs @ ys) = lower_seg U behind xs ys @ lower_from U (rev xs @ behind) ys"
  by (induction xs arbitrary: behind) auto

lemma lower_seg_ascii:
  assumes "ascii_conformant U" "\<forall>c\<in>set w. c < 128"
  shows "lower_seg U behind w after = map ascii_lower w"
  using assms by (induction w arbitrary: behind) (auto simp: ascii_conformant_def)

lemma lower_seg_last:
  assumes "lower_keeps_nonword U" "pre \<noteq> []" "\<not> is_word U (last pre)"
  shows "lower_seg U behind pre after \<noteq> [] \<and> \<not> is_word U (last (lower_seg U behind pre after))"
  using assms
proof (induction pre arbitrary: behind)
  case Nil
  then show ?case by simp
next
  case (Cons x xs)
  show ?case
  proof (cases "xs = []")
    case True
    with Cons.prems have "\<not> is_word U x" by simp
    with Cons.prems(1) have "lower_at U behind x after \<noteq> []"
      "\<forall>c\<in>set (lower_at U behind x after). \<not> is_word U c"
      by (auto simp: lower_keeps_nonword_def)
    then show ?thesis using True by simp
  next
    case False
    with Cons.prems have "\<not> is_word U (last xs)" by simp
    from Cons.IH [OF Cons.prems(1) False this, of "x # behind"] show ?thesis by simp
  qed
qed

lemma lower_from_hd:
  assumes "lower_keeps_nonword U" "post \<noteq> []" "\<not> is_word U (hd post)"
  shows "lower_from U behind post \<noteq> [] \<and> \<not> is_word U (hd (lower_from U behind post))"
proof -
  from assms obtain x xs where p: "post = x # xs" "\<not> is_word U x" by (cases post) auto
  with assms(1) have "lower_at U behind x xs \<noteq> []"
    "\<forall>c\<in>set (lower_at U behind x xs). \<not> is_word U c"
    by (auto simp: lower_keeps_nonword_def)
  then show ?thesis using p by simp
qed

lemma boundary_before_word:
  assumes "k \<noteq> []" "is_word U (hd k)"
  shows "at_boundary U (rev pre @ behind) (k @ post)
     \<longleftrightarrow> \<not> (case rev pre @ behind of [] \<Rightarrow> False | p # _ \<Rightarrow> is_word U p)"
  using assms by (cases k) (auto simp: at_boundary_def)

lemma boundary_after_word:
  assumes "k \<noteq> []" "is_word U (last k)"
  shows "at_boundary U (rev k @ behind) post
     \<longleftrightarrow> \<not> (case post of [] \<Rightarrow> False | n # _ \<Rightarrow> is_word U n)"
proof -
  from assms obtain y ys where "rev k = y # ys" "is_word U y"
    by (cases "rev k") (auto simp: last_rev [symmetric] hd_rev)
  then show ?thesis by (auto simp: at_boundary_def)
qed

lemma prev_is_word: "(case rev pre of [] \<Rightarrow> False | p # _ \<Rightarrow> is_word U p) \<longleftrightarrow> pre \<noteq> [] \<and> is_word U (last pre)"
  by (cases pre rule: rev_cases) auto

lemma next_is_word: "(case post of [] \<Rightarrow> False | n # _ \<Rightarrow> is_word U n) \<longleftrightarrow> post \<noteq> [] \<and> is_word U (hd post)"
  by (cases post) auto

lemma whole_word_in_word:
  assumes "k \<noteq> []" "is_word U (hd k)" "is_word U (last k)"
  shows "whole_word_in U k [] text \<longleftrightarrow>
     (\<exists>pre post. text = pre @ k @ post \<and> (pre = [] \<or> \<not> is_word U (last pre))
        \<and> (post = [] \<or> \<not> is_word U (hd post)))"
proof -
  have "at_boundary U (rev pre @ []) (k @ post) \<and> at_boundary U (rev k @ rev pre @ []) post
      \<longleftrightarrow> (pre = [] \<or> \<not> is_word U (last pre)) \<and> (post = [] \<or> \<not> is_word U (hd post))"
    for pre post
    using boundary_before_word [OF assms(1,2), of pre "[]" post]
      boundary_after_word [OF assms(1,3), of "rev pre" post]
    by (auto simp: prev_is_word next_is_word hd_rev)
  then show ?thesis by (simp only: whole_word_in_iff)
qed

lemma keywords_shape_ascii:
  "list_all (\<lambda>k. k \<noteq> [] \<and> ascii_alnum (hd k) \<and> ascii_alnum (last k)
      \<and> list_all (\<lambda>c. c < 128 \<and> ascii_lower c = c) k) ALL_KEYWORDS"
  by (simp add: kw_defs ascii_alnum_def ascii_lower_def)

lemma keyword_shape:
  assumes U: "ascii_conformant U" and k: "k \<in> set ALL_KEYWORDS"
  shows "k \<noteq> []" "is_word U (hd k)" "is_word U (last k)" "\<forall>c\<in>set k. c < 128 \<and> ascii_lower c = c"
    "py_lower U k = k"
proof -
  from keywords_shape_ascii k
  have s: "k \<noteq> [] \<and> ascii_alnum (hd k) \<and> ascii_alnum (last k)
      \<and> list_all (\<lambda>c. c < 128 \<and> ascii_lower c = c) k"
    by (simp only: list_all_iff) blast
  then show ne: "k \<noteq> []" by simp
  from s show all: "\<forall>c\<in>set k. c < 128 \<and> ascii_lower c = c" by (simp add: list_all_iff)
  from ne have "hd k \<in> set k" "last k \<in> set k" by simp_all
  with all have "hd k < 128" "last k < 128" by blast+
  with s show "is_word U (hd k)" "is_word U (last k)"
    by (simp_all add: is_word_ascii [OF U])
  from all have "lower_from U [] k = map ascii_lower k"
    by (intro lower_ascii [OF U]) simp
  also from all have "\<dots> = k" by (induction k) auto
  finally show "py_lower U k = k" by (simp add: py_lower_def)
qed

lemma matched_iff:
  assumes U: "ascii_conformant U" and k: "k \<in> set ALL_KEYWORDS"
  shows "k \<in> set (match_keywords U item) \<longleftrightarrow>
     (\<exists>pre post. match_text U item = pre @ k @ post \<and> (pre = [] \<or> \<not> is_word U (last pre))
        \<and> (post = [] \<or> \<not> is_word U (hd post)))"
  using k
  by (simp add: match_keywords_def keyword_hit_whole_word keyword_shape(5) [OF U k]
      whole_word_in_word [OF keyword_shape(1,2,3) [OF U k]])

lemma standalone_in_text:
  assumes U: "ascii_conformant U" and L: "lower_keeps_nonword U" and k: "k \<in> set ALL_KEYWORDS"
    and w: "map ascii_lower w = k"
    and pre: "pre = [] \<or> \<not> is_word U (last pre)"
    and post: "post = [] \<or> \<not> is_word U (hd post)"
  shows "whole_word_in U k [] (py_lower U (pre @ w @ post))"
proof -
  note shape = keyword_shape [OF U k]
  have wa: "\<forall>c\<in>set w. c < 128"
  proof
    fix c assume c: "c \<in> set w"
    then have "ascii_lower c \<in> set k" using w by auto
    with shape(4) have "ascii_lower c < 128" by blast
    then show "c < 128" by (simp add: ascii_lower_def split: if_splits)
  qed
  let ?P = "lower_seg U [] pre (w @ post)"
  let ?Q = "lower_from U (rev w @ rev pre) post"
  have e1: "lower_from U [] (pre @ w @ post) = ?P @ lower_from U (rev pre) (w @ post)"
    by (simp add: lower_from_append)
  have e2: "lower_from U (rev pre) (w @ post) = lower_seg U (rev pre) w post @ ?Q"
    by (simp add: lower_from_append)
  have e3: "lower_seg U (rev pre) w post = k"
    using lower_seg_ascii [OF U wa] w by simp
  have lowered: "py_lower U (pre @ w @ post) = ?P @ k @ ?Q"
    by (simp only: py_lower_def e1 e2 e3)
  have P: "?P = [] \<or> \<not> is_word U (last ?P)"
  proof (cases "pre = []")
    case True
    then show ?thesis by simp
  next
    case False
    with pre lower_seg_last [OF L False] show ?thesis by blast
  qed
  have Q: "?Q = [] \<or> \<not> is_word U (hd ?Q)"
  proof (cases "post = []")
    case True
    then show ?thesis by simp
  next
    case False
    with post lower_from_hd [OF L False] show ?thesis by blast
  qed
  from lowered P Q show ?thesis
    unfolding whole_word_in_word [OF shape(1,2,3)] by blast
qed

lemma space_not_word: "ascii_conformant U \<Longrightarrow> \<not> is_word U 32"
  by (simp add: is_word_ascii ascii_alnum_def)

lemma sample_keeps_nonword: "lower_keeps_nonword sample"
  by (auto simp: lower_keeps_nonword_def sample_def is_word_def ro_lower_def ascii_lower_def
      ascii_alnum_def)

text \<open>
  C1 (seen-state diff). Whenever no deadline can make the classifier raise,
  \<^verbatim>\<open>process_funding\<close> returns, and: every matching item whose id is not a key of the
  database has its id among the new items and among the keys afterwards; with distinct ids
  the new items are exactly the matching items whose id was not a key; each new item gets
  one record appended, the snapshot of that item; from an empty database and matching items
  with distinct ids, every item is new and the keys afterwards are the ids of the items;
  running again on the same items with the updated database returns no new item and leaves
  the database as it is; and \<^verbatim>\<open>cleanup_old_funding\<close> then removes exactly the entries whose
  key is not in \<open>current_ids\<close> and returns their number. In \<^verbatim>\<open>main\<close>, where
  \<open>current_ids\<close> are the ids of all scraped items, the keys saved are the old keys that
  are still listed together with the ids of the matching items.
\<close>

theorem tracker_diff:
  assumes ok: "\<forall>it\<in>set items. deadline_ok f it"
  shows "\<exists>t' new allm seen'.
     process_funding U f clk t items seen = Inr (t', new, allm, seen')
     \<and> (\<forall>it\<in>set items. match_keywords U it \<noteq> [] \<and> fund_id it \<notin> set (db_keys seen)
           \<longrightarrow> fund_id it \<in> fund_id ` set new \<and> fund_id it \<in> set (db_keys seen'))
     \<and> (distinct (map fund_id items) \<longrightarrow> new = filter (\<lambda>x. fund_id x \<notin> set (db_keys seen)) allm)
     \<and> list_all2 (\<lambda>x it. \<exists>soon. x = classify U it soon) allm
           (filter (\<lambda>it. match_keywords U it \<noteq> []) items)
     \<and> (\<exists>added. funding_db seen' = funding_db seen @ added
           \<and> list_all2 (\<lambda>e x. fst e = fund_id x
                  \<and> (\<exists>n. snd e = snapshot (now clk n) x (match_keywords U x))) added new)
     \<and> (funding_db seen = [] \<and> distinct (map fund_id items)
           \<and> (\<forall>it\<in>set items. match_keywords U it \<noteq> [])
         \<longrightarrow> map fund_id new = map fund_id items \<and> db_keys seen' = map fund_id items)
     \<and> (\<exists>t'' all2. process_funding U f clk t' items seen' = Inr (t'', [], all2, seen'))
     \<and> (distinct (db_keys seen) \<longrightarrow>
          (\<forall>ids. \<exists>pruned.
             cleanup_old_funding seen' ids =
               Inr (pruned, length (filter (\<lambda>k. k \<notin> ids) (db_keys seen')))
             \<and> funding_db pruned = filter (\<lambda>e. fst e \<in> ids) (funding_db seen')
             \<and> db_keys pruned = filter (\<lambda>k. k \<in> ids) (db_keys seen')))
     \<and> (distinct (db_keys seen) \<longrightarrow>
          (\<exists>out. main_run U f clk send seen items = Inr out
             \<and> set (db_keys (saved out)) =
                 (set (db_keys seen) \<inter> fund_id ` set items)
                   \<union> fund_id ` {it \<in> set items. match_keywords U it \<noteq> []}))"
proof -
  obtain t' new allm seen' added where
    run: "process_funding U f clk t items seen = Inr (t', new, allm, seen')"
    and new: "new = brand_new (db_keys seen) allm"
    and seen': "seen' = seen\<lparr>funding_db := funding_db seen @ added\<rparr>"
    and allm: "list_all2 (\<lambda>x it. \<exists>soon. x = classify U it soon) allm
                 (filter (\<lambda>it. match_keywords U it \<noteq> []) items)"
    and added: "list_all2 (\<lambda>e x. fst e = fund_id x
                  \<and> (\<exists>n. snd e = snapshot (now clk n) x (match_keywords U x))) added new"
    and keys: "db_keys seen' = db_keys seen @ map fund_id new"
    by (rule process_funding_facts [OF ok, of U clk t seen])
  have ids: "map fund_id allm = map fund_id (filter (\<lambda>it. match_keywords U it \<noteq> []) items)"
    using allm by (rule list_all2_classify_ids)
  have covered: "fund_id x \<in> set (db_keys seen')" if "x \<in> set allm" for x
    using brand_new_covers [OF that, of "db_keys seen"] new keys by auto
  have a: "\<forall>it\<in>set items. match_keywords U it \<noteq> [] \<and> fund_id it \<notin> set (db_keys seen)
           \<longrightarrow> fund_id it \<in> fund_id ` set new \<and> fund_id it \<in> set (db_keys seen')"
  proof (intro ballI impI)
    fix it assume it: "it \<in> set items"
      and m: "match_keywords U it \<noteq> [] \<and> fund_id it \<notin> set (db_keys seen)"
    then have "fund_id it \<in> set (map fund_id allm)" by (simp add: ids)
    then obtain x where x: "x \<in> set allm" "fund_id x = fund_id it" by auto
    from brand_new_covers [OF x(1), of "db_keys seen"] x(2) m new
    have "fund_id it \<in> fund_id ` set new" by auto
    then show "fund_id it \<in> fund_id ` set new \<and> fund_id it \<in> set (db_keys seen')"
      using keys by auto
  qed
  have dist: "distinct (map fund_id allm)" if "distinct (map fund_id items)"
    using that by (simp add: ids distinct_map_filter)
  have b: "distinct (map fund_id items) \<longrightarrow> new = filter (\<lambda>x. fund_id x \<notin> set (db_keys seen)) allm"
    using dist new by (simp add: brand_new_distinct)
  have c: "funding_db seen = [] \<and> distinct (map fund_id items)
           \<and> (\<forall>it\<in>set items. match_keywords U it \<noteq> [])
         \<longrightarrow> map fund_id new = map fund_id items \<and> db_keys seen' = map fund_id items"
  proof (intro impI)
    assume h: "funding_db seen = [] \<and> distinct (map fund_id items)
           \<and> (\<forall>it\<in>set items. match_keywords U it \<noteq> [])"
    then have k0: "db_keys seen = []" by (simp add: db_keys_def)
    from h b have "new = filter (\<lambda>x. fund_id x \<notin> set (db_keys seen)) allm" by blast
    then have na: "new = allm" by (simp add: k0)
    from h have fi: "filter (\<lambda>it. match_keywords U it \<noteq> []) items = items" by simp
    have "map fund_id new = map fund_id items"
      by (simp only: na ids fi)
    moreover have "db_keys seen' = map fund_id items"
      by (simp only: keys k0 na ids fi append_Nil)
    ultimately show "map fund_id new = map fund_id items \<and> db_keys seen' = map fund_id items"
      by (rule conjI)
  qed
  have d: "\<exists>t'' all2. process_funding U f clk t' items seen' = Inr (t'', [], all2, seen')"
  proof -
    obtain t2 new2 all2 seen2 added2 where
      run2: "process_funding U f clk t' items seen' = Inr (t2, new2, all2, seen2)"
      and new2: "new2 = brand_new (db_keys seen') all2"
      and seen2: "seen2 = seen'\<lparr>funding_db := funding_db seen' @ added2\<rparr>"
      and all2: "list_all2 (\<lambda>x it. \<exists>soon. x = classify U it soon) all2
                 (filter (\<lambda>it. match_keywords U it \<noteq> []) items)"
      and added2: "list_all2 (\<lambda>e x. fst e = fund_id x
                  \<and> (\<exists>n. snd e = snapshot (now clk n) x (match_keywords U x))) added2 new2"
      and keys2: "db_keys seen2 = db_keys seen' @ map fund_id new2"
      by (rule process_funding_facts [OF ok, of U clk t' seen'])
    have same: "map fund_id all2 = map fund_id allm"
      using list_all2_classify_ids [OF all2] ids by simp
    have "\<forall>x\<in>set all2. fund_id x \<in> set (db_keys seen')"
    proof
      fix x assume "x \<in> set all2"
      then have "fund_id x \<in> set (map fund_id all2)" by simp
      then have "fund_id x \<in> set (map fund_id allm)" by (simp only: same)
      then obtain y where "y \<in> set allm" "fund_id y = fund_id x" by auto
      with covered [of y] show "fund_id x \<in> set (db_keys seen')" by simp
    qed
    then have "new2 = []" using new2 by (simp add: brand_new_none)
    with added2 have "added2 = []" by simp
    with seen2 have "seen2 = seen'" by simp
    with run2 \<open>new2 = []\<close> show ?thesis by blast
  qed
  have e: "distinct (db_keys seen) \<longrightarrow>
          (\<forall>ids. \<exists>pruned.
             cleanup_old_funding seen' ids =
               Inr (pruned, length (filter (\<lambda>k. k \<notin> ids) (db_keys seen')))
             \<and> funding_db pruned = filter (\<lambda>e. fst e \<in> ids) (funding_db seen')
             \<and> db_keys pruned = filter (\<lambda>k. k \<in> ids) (db_keys seen'))"
  proof (intro impI allI)
    fix ids assume "distinct (db_keys seen)"
    then have "distinct (db_keys seen')"
      using brand_new_ids_distinct [of "db_keys seen" allm] keys new by simp
    from cleanup_result [OF this, of ids] show "\<exists>pruned.
             cleanup_old_funding seen' ids =
               Inr (pruned, length (filter (\<lambda>k. k \<notin> ids) (db_keys seen')))
             \<and> funding_db pruned = filter (\<lambda>e. fst e \<in> ids) (funding_db seen')
             \<and> db_keys pruned = filter (\<lambda>k. k \<in> ids) (db_keys seen')"
      by (simp add: db_keys_def filter_map comp_def)
  qed
  from seen' added have f: "\<exists>added. funding_db seen' = funding_db seen @ added
           \<and> list_all2 (\<lambda>e x. fst e = fund_id x
                  \<and> (\<exists>n. snd e = snapshot (now clk n) x (match_keywords U x))) added new"
    by auto
  have g: "distinct (db_keys seen) \<longrightarrow>
          (\<exists>out. main_run U f clk send seen items = Inr out
             \<and> set (db_keys (saved out)) =
                 (set (db_keys seen) \<inter> fund_id ` set items)
                   \<union> fund_id ` {it \<in> set items. match_keywords U it \<noteq> []})"
    by (rule impI) (rule main_run_saved_keys [OF ok])
  show ?thesis
    apply (rule exI [of _ t'], rule exI [of _ new], rule exI [of _ allm], rule exI [of _ seen'])
    using run a b allm f c d e g by (intro conjI)
qed


theorem tracker_diff_witness:
  "list_all (deadline_ok fromiso0) three \<and> funding_db empty_db = []
   \<and> distinct (map fund_id three) \<and> list_all (\<lambda>it. match_keywords sample it \<noteq> []) three
   \<and> distinct (db_keys empty_db)
   \<and> (\<exists>t' new allm seen'.
         process_funding sample fromiso0 clock0 0 three empty_db = Inr (t', new, allm, seen')
         \<and> map fund_id new = [ustr ''afcn_1'', ustr ''afcn_2'', ustr ''afcn_3'']
         \<and> db_keys seen' = [ustr ''afcn_1'', ustr ''afcn_2'', ustr ''afcn_3'']
         \<and> (\<exists>t'' all2. process_funding sample fromiso0 clock0 t' three seen' = Inr (t'', [], all2, seen'))
         \<and> (\<exists>pruned. cleanup_old_funding seen' {ustr ''afcn_1'', ustr ''afcn_2''} = Inr (pruned, 1)
               \<and> db_keys pruned = [ustr ''afcn_1'', ustr ''afcn_2'']))"
proof -
  have h1: "\<forall>it\<in>set three. deadline_ok fromiso0 it" by (simp add: three_def listing_ok)
  have h2: "funding_db empty_db = []" by (simp add: empty_db_def)
  have h3: "distinct (map fund_id three)" by (simp add: three_def listing_def ustr_def)
  have h4: "distinct (db_keys empty_db)" by (simp add: empty_db_def db_keys_def)
  have ids: "map fund_id three = [ustr ''afcn_1'', ustr ''afcn_2'', ustr ''afcn_3'']"
    by (simp add: three_def listing_def)
  obtain t' new allm seen' where
    r: "process_funding sample fromiso0 clock0 0 three empty_db = Inr (t', new, allm, seen')"
    and c: "funding_db empty_db = [] \<and> distinct (map fund_id three)
           \<and> (\<forall>it\<in>set three. match_keywords sample it \<noteq> [])
         \<longrightarrow> map fund_id new = map fund_id three \<and> db_keys seen' = map fund_id three"
    and d: "\<exists>t'' all2. process_funding sample fromiso0 clock0 t' three seen' = Inr (t'', [], all2, seen')"
    and e: "distinct (db_keys empty_db) \<longrightarrow>
          (\<forall>ids. \<exists>pruned.
             cleanup_old_funding seen' ids =
               Inr (pruned, length (filter (\<lambda>k. k \<notin> ids) (db_keys seen')))
             \<and> funding_db pruned = filter (\<lambda>e. fst e \<in> ids) (funding_db seen')
             \<and> db_keys pruned = filter (\<lambda>k. k \<in> ids) (db_keys seen'))"
    using tracker_diff [OF h1, of sample clock0 0 empty_db "\<lambda>x. True"]
    apply -
    apply (erule exE)+
    apply (erule conjE)+
    by (rule that)
  from c h2 h3 three_match have k: "map fund_id new = map fund_id three" "db_keys seen' = map fund_id three"
    by blast+
  from e h4 obtain pruned where
    p: "cleanup_old_funding seen' {ustr ''afcn_1'', ustr ''afcn_2''} =
               Inr (pruned, length (filter (\<lambda>k. k \<notin> {ustr ''afcn_1'', ustr ''afcn_2''}) (db_keys seen')))"
       "db_keys pruned = filter (\<lambda>k. k \<in> {ustr ''afcn_1'', ustr ''afcn_2''}) (db_keys seen')"
    by blast
  have "length (filter (\<lambda>k. k \<notin> {ustr ''afcn_1'', ustr ''afcn_2''}) (db_keys seen')) = 1"
    "filter (\<lambda>k. k \<in> {ustr ''afcn_1'', ustr ''afcn_2''}) (db_keys seen') = [ustr ''afcn_1'', ustr ''afcn_2'']"
    by (simp_all add: k ids) (simp_all add: ustr_def)
  with p have pr: "\<exists>pruned. cleanup_old_funding seen' {ustr ''afcn_1'', ustr ''afcn_2''} = Inr (pruned, 1)
               \<and> db_keys pruned = [ustr ''afcn_1'', ustr ''afcn_2'']" by simp
  have concl: "\<exists>t' new allm seen'.
         process_funding sample fromiso0 clock0 0 three empty_db = Inr (t', new, allm, seen')
         \<and> map fund_id new = [ustr ''afcn_1'', ustr ''afcn_2'', ustr ''afcn_3'']
         \<and> db_keys seen' = [ustr ''afcn_1'', ustr ''afcn_2'', ustr ''afcn_3'']
         \<and> (\<exists>t'' all2. process_funding sample fromiso0 clock0 t' three seen' = Inr (t'', [], all2, seen'))
         \<and> (\<exists>pruned. cleanup_old_funding seen' {ustr ''afcn_1'', ustr ''afcn_2''} = Inr (pruned, 1)
               \<and> db_keys pruned = [ustr ''afcn_1'', ustr ''afcn_2''])"
    apply (rule exI [of _ t'], rule exI [of _ new], rule exI [of _ allm], rule exI [of _ seen'])
    using r k(1) [unfolded ids] k(2) [unfolded ids] d pr by (intro conjI)
  show ?thesis using h1 h2 h3 three_match h4 concl by (simp only: list_all_iff)
qed

text \<open>
  C6 (no keyword, no trace). An item that matches no keyword is skipped by the loop: the
  step returns the state it was given (nothing appended to either result, nothing stored).
  After a run, every member of the matching and of the new items matches a keyword, so the
  item is in neither list, classified or not; its id is a key afterwards only if it was
  one before or a matching item carries the same id; and \<^verbatim>\<open>main\<close> hands to the
  notifier (and to the dashboard) only items that match.
\<close>

theorem no_match_discarded:
  assumes "match_keywords U it = []"
  shows "process_item U f clk st it = Inr st
     \<and> (process_funding U f clk t items seen = Inr (t', new, allm, seen') \<longrightarrow>
          (\<forall>x\<in>set allm \<union> set new. match_keywords U x \<noteq> [] \<and> x \<noteq> it \<and> (\<forall>soon. x \<noteq> classify U it soon))
          \<and> ((\<forall>x\<in>set items. fund_id x = fund_id it \<longrightarrow> match_keywords U x = [])
                \<longrightarrow> (fund_id it \<in> set (db_keys seen') \<longleftrightarrow> fund_id it \<in> set (db_keys seen))))
     \<and> (main_run U f clk send seen items = Inr out \<longrightarrow>
          (\<forall>x\<in>set (notified out) \<union> set (dashboard_items out).
              match_keywords U x \<noteq> [] \<and> x \<noteq> it \<and> (\<forall>soon. x \<noteq> classify U it soon)))"
proof -
  have members: "match_keywords U x \<noteq> [] \<and> x \<noteq> it \<and> (\<forall>soon. x \<noteq> classify U it soon)"
    if run: "process_funding U f clk t0 items seen = Inr (t1, new1, all1, seen1)"
      and x: "x \<in> set all1 \<union> set new1" for t0 t1 new1 all1 seen1 x
  proof -
    from loop_members_match [OF run] x
    obtain it' soon where "match_keywords U it' \<noteq> []" "x = classify U it' soon" by blast
    then have m: "match_keywords U x \<noteq> []" by simp
    with assms have "x \<noteq> it" by auto
    moreover have "x \<noteq> classify U it soon'" for soon'
      using m assms by auto
    ultimately show ?thesis using m by blast
  qed
  have keys: "fund_id it \<in> set (db_keys seen') \<longleftrightarrow> fund_id it \<in> set (db_keys seen)"
    if run: "process_funding U f clk t items seen = Inr (t', new, allm, seen')"
      and alone: "\<forall>x\<in>set items. fund_id x = fund_id it \<longrightarrow> match_keywords U x = []"
  proof -
    from alone have "fund_id it \<notin> fund_id ` {it \<in> set items. match_keywords U it \<noteq> []}" by auto
    moreover obtain added where "seen' = seen\<lparr>funding_db := funding_db seen @ added\<rparr>"
      using loop_keys(2) [OF run] by blast
    then have "set (db_keys seen) \<subseteq> set (db_keys seen')" by (auto simp: db_keys_def)
    ultimately show ?thesis using loop_keys(1) [OF run] by auto
  qed
  have notif: "match_keywords U x \<noteq> [] \<and> x \<noteq> it \<and> (\<forall>soon. x \<noteq> classify U it soon)"
    if main: "main_run U f clk send seen items = Inr out"
      and x: "x \<in> set (notified out) \<union> set (dashboard_items out)" for x
  proof -
    from main_run_members [OF main] obtain t1 seen1 where
      "process_funding U f clk 0 items seen = Inr (t1, notified out, dashboard_items out, seen1)"
      by blast
    from members [OF this] x show ?thesis by blast
  qed
  from process_item_nomatch [OF assms] members keys notif show ?thesis by blast
qed

theorem no_match_discarded_witness:
  "match_keywords sample anunt = []
   \<and> process_item sample fromiso0 clock0 (0, [], [], empty_db) anunt = Inr (0, [], [], empty_db)
   \<and> (\<exists>out. main_run sample fromiso0 clock0 (\<lambda>x. True) empty_db [anunt] = Inr out
         \<and> notified out = [] \<and> dashboard_items out = [] \<and> funding_db (saved out) = [])"
proof -
  have h: "match_keywords sample anunt = []"
    by (rule anunt_no_match [OF sample_conformant])
  from no_match_discarded [OF h, of fromiso0 clock0 "(0, [], [], empty_db)"]
  have step: "process_item sample fromiso0 clock0 (0, [], [], empty_db) anunt = Inr (0, [], [], empty_db)"
    by blast
  then have "main_run sample fromiso0 clock0 (\<lambda>x. True) empty_db [anunt] =
      Inr \<lparr>notified = [], notification_count = 0,
           saved = empty_db\<lparr>last_updated := Some (now clock0 0)\<rparr>,
           dashboard_items = [], removed = 0\<rparr>"
    by (simp add: main_run_def process_funding_def cleanup_old_funding_def empty_db_def db_keys_def)
  then have "\<exists>out. main_run sample fromiso0 clock0 (\<lambda>x. True) empty_db [anunt] = Inr out
         \<and> notified out = [] \<and> dashboard_items out = [] \<and> funding_db (saved out) = []"
    by (simp add: empty_db_def)
  with h step show ?thesis by (intro conjI)
qed

text \<open>
  C7 (high priority). Every item of the matching result carries the keywords it matched and
  \<open>is_high_priority\<close> is set to: some matched keyword is in the high-priority tier. An
  item matching only the medium-tier keyword "cultural" is classified with
  \<open>is_high_priority = False\<close>; the item matching "steam" and "elevi" with \<open>True\<close>.
\<close>

theorem high_priority_iff:
  "(process_funding U f clk t items seen = Inr (t', new, allm, seen') \<longrightarrow>
      (\<forall>x\<in>set allm.
          matched_keywords x = Some (match_keywords U x) \<and> match_keywords U x \<noteq> []
          \<and> is_high_priority x
               = Some (\<exists>k\<in>set (match_keywords U x). k \<in> set HIGH_PRIORITY_KEYWORDS)))
   \<and> (ascii_conformant U \<longrightarrow>
        match_keywords U festival = [ustr ''cultural'']
        \<and> ustr ''cultural'' \<notin> set HIGH_PRIORITY_KEYWORDS
        \<and> (\<exists>t' new x seen'. process_funding U f clk t [festival] seen = Inr (t', new, [x], seen')
              \<and> is_high_priority x = Some False)
        \<and> match_keywords U apel = [ustr ''steam'', ustr ''elevi'']
        \<and> (\<exists>t' new x seen'. process_funding U f clk t [apel] seen = Inr (t', new, [x], seen')
              \<and> is_high_priority x = Some True))"
proof -
  have general: "matched_keywords x = Some (match_keywords U x) \<and> match_keywords U x \<noteq> []
          \<and> is_high_priority x
               = Some (\<exists>k\<in>set (match_keywords U x). k \<in> set HIGH_PRIORITY_KEYWORDS)"
    if run: "process_funding U f clk t items seen = Inr (t', new, allm, seen')"
      and x: "x \<in> set allm" for x
  proof -
    from loop_members_match [OF run] x
    obtain it soon where "match_keywords U it \<noteq> []" "x = classify U it soon" by blast
    then show ?thesis by (simp add: classified_fields)
  qed
  have examples: "match_keywords U festival = [ustr ''cultural'']
        \<and> ustr ''cultural'' \<notin> set HIGH_PRIORITY_KEYWORDS
        \<and> (\<exists>t' new x seen'. process_funding U f clk t [festival] seen = Inr (t', new, [x], seen')
              \<and> is_high_priority x = Some False)
        \<and> match_keywords U apel = [ustr ''steam'', ustr ''elevi'']
        \<and> (\<exists>t' new x seen'. process_funding U f clk t [apel] seen = Inr (t', new, [x], seen')
              \<and> is_high_priority x = Some True)"
    if U: "ascii_conformant U"
  proof -
    have m1: "match_keywords U festival = [ustr ''cultural'']" by (rule festival_match [OF U])
    have m2: "match_keywords U apel = [ustr ''steam'', ustr ''elevi'']" by (rule apel_match [OF U])
    have low: "ustr ''cultural'' \<notin> set HIGH_PRIORITY_KEYWORDS"
      by (simp add: HIGH_PRIORITY_KEYWORDS_def ustr_def)
    have high: "ustr ''steam'' \<in> set HIGH_PRIORITY_KEYWORDS"
      by (simp add: HIGH_PRIORITY_KEYWORDS_def ustr_def)
    have d1: "deadline_date festival = PyNone" by (simp add: festival_def listing_def)
    have d2: "deadline_date apel = PyNone" by (simp add: apel_def listing_def)
    have p1: "is_high_priority (classify U festival False) = Some False"
      using low by (simp add: classified_fields m1)
    have p2: "is_high_priority (classify U apel False) = Some True"
      using high by (simp add: classified_fields m2)
    have r1: "\<exists>t' new x seen'. process_funding U f clk t [festival] seen = Inr (t', new, [x], seen')
              \<and> is_high_priority x = Some False"
      using single_matching_run [of U festival f clk t seen] m1 d1 p1 by auto
    have r2: "\<exists>t' new x seen'. process_funding U f clk t [apel] seen = Inr (t', new, [x], seen')
              \<and> is_high_priority x = Some True"
      using single_matching_run [of U apel f clk t seen] m2 d2 p2 by auto
    from m1 low r1 m2 r2 show ?thesis by (intro conjI)
  qed
  from general examples show ?thesis by blast
qed

theorem high_priority_iff_witness:
  "process_funding sample fromiso0 clock0 0 [festival] empty_db
     = Inr (2, [classify sample festival False], [classify sample festival False],
            \<lparr>funding_db = [(ustr ''afcn_7'', snapshot (now clock0 1) festival [ustr ''cultural''])],
             last_updated = None\<rparr>)
   \<and> is_high_priority (classify sample festival False) = Some False
   \<and> matched_keywords (classify sample festival False) = Some [ustr ''cultural'']"
proof -
  from high_priority_iff [of sample fromiso0 clock0 0 "[festival]" empty_db] sample_conformant
  have m: "match_keywords sample festival = [ustr ''cultural'']"
    and low: "ustr ''cultural'' \<notin> set HIGH_PRIORITY_KEYWORDS"
    by blast+
  have d: "deadline_date festival = PyNone" by (simp add: festival_def listing_def)
  have run: "process_funding sample fromiso0 clock0 0 [festival] empty_db
     = Inr (2, [classify sample festival False], [classify sample festival False],
            \<lparr>funding_db = [(ustr ''afcn_7'', snapshot (now clock0 1) festival [ustr ''cultural''])],
             last_updated = None\<rparr>)"
    using single_matching_run [of sample festival fromiso0 clock0 0 empty_db] m d
    by (simp add: empty_db_def db_keys_def festival_def listing_def)
  from high_priority_iff [of sample fromiso0 clock0 0 "[festival]" empty_db 2
      "[classify sample festival False]" "[classify sample festival False]"] run
  have "matched_keywords (classify sample festival False) = Some (match_keywords sample (classify sample festival False))"
    "is_high_priority (classify sample festival False)
       = Some (\<exists>k\<in>set (match_keywords sample (classify sample festival False)). k \<in> set HIGH_PRIORITY_KEYWORDS)"
    by simp_all
  with m low have "is_high_priority (classify sample festival False) = Some False"
    "matched_keywords (classify sample festival False) = Some [ustr ''cultural'']"
    by simp_all
  with run show ?thesis by (intro conjI)
qed

text \<open>
  C8 (stored records are never rewritten). Processing an item whose id is already a key
  returns the database it was given (and adds nothing to the new items), whatever the
  item's title, deadline or keywords are now. Over a whole run the stored entries stay
  where they are, unchanged: new entries are only appended, and a lookup of an id that was
  a key gives the record it gave before.
\<close>

theorem seen_record_immutable:
  assumes "fund_id it \<in> set (db_keys seen)"
  shows "(process_item U f clk (t, new, allm, seen) it = Inr (t1, new1, all1, seen1) \<longrightarrow>
            seen1 = seen \<and> new1 = new)
     \<and> (process_funding U f clk t items seen = Inr (t2, new2, all2, seen2) \<longrightarrow>
            take (length (funding_db seen)) (funding_db seen2) = funding_db seen
            \<and> last_updated seen2 = last_updated seen
            \<and> map_of (funding_db seen2) (fund_id it) = map_of (funding_db seen) (fund_id it))"
proof -
  have step: "seen1 = seen \<and> new1 = new"
    if "process_item U f clk (t, new, allm, seen) it = Inr (t1, new1, all1, seen1)"
    using that assms by (cases rule: process_item_cases) auto
  have run: "take (length (funding_db seen)) (funding_db seen2) = funding_db seen
            \<and> last_updated seen2 = last_updated seen
            \<and> map_of (funding_db seen2) (fund_id it) = map_of (funding_db seen) (fund_id it)"
    if r: "process_funding U f clk t items seen = Inr (t2, new2, all2, seen2)"
  proof -
    obtain added where s: "seen2 = seen\<lparr>funding_db := funding_db seen @ added\<rparr>"
      using loop_keys(2) [OF r] by blast
    from assms have "fund_id it \<in> dom (map_of (funding_db seen))"
      by (simp add: db_keys_def dom_map_of_conv_image_fst)
    then have "map_of (funding_db seen @ added) (fund_id it) = map_of (funding_db seen) (fund_id it)"
      by (auto simp: map_add_def split: option.splits)
    with s show ?thesis by simp
  qed
  from step run show ?thesis by blast
qed

theorem seen_record_immutable_witness:
  "fund_id festival \<in> set (db_keys stored)
   \<and> seen_title (snapshot (midnight 2025 1 1) anunt [ustr ''ong'']) \<noteq> title festival
   \<and> (\<exists>t1 all1. process_item sample fromiso0 clock0 (0, [], [], stored) festival
                    = Inr (t1, [], all1, stored))"
proof -
  have h: "fund_id festival \<in> set (db_keys stored)"
    by (simp add: stored_def db_keys_def festival_def listing_def)
  have differs: "seen_title (snapshot (midnight 2025 1 1) anunt [ustr ''ong'']) \<noteq> title festival"
    by (simp add: snapshot_def anunt_def festival_def listing_def ustr_def)
  have "deadline_ok fromiso0 festival" by (simp add: festival_def listing_ok)
  from process_item_total [OF this, of sample clock0 "(0, [], [], stored)"]
  obtain st where "process_item sample fromiso0 clock0 (0, [], [], stored) festival = Inr st"
    by blast
  moreover obtain t1 new1 all1 seen1 where "st = (t1, new1, all1, seen1)"
    by (cases st rule: prod_cases4)
  ultimately have r: "process_item sample fromiso0 clock0 (0, [], [], stored) festival
      = Inr (t1, new1, all1, seen1)" by simp
  with seen_record_immutable [OF h, of sample fromiso0 clock0 0 "[]" "[]" t1 new1 all1 seen1]
  have "seen1 = stored" "new1 = []" by blast+
  with r have "\<exists>t1 all1. process_item sample fromiso0 clock0 (0, [], [], stored) festival
                    = Inr (t1, [], all1, stored)" by blast
  with h differs show ?thesis by (intro conjI)
qed

text \<open>
  C3 (closing soon), as the code has it. For a naive deadline and clock reading,
  \<open>closing_soon\<close> is true exactly when the number of whole days from now to the deadline
  (the floor of the difference) is between 0 and 14, that is when the deadline lies in
  \<open>[now, now + 15 days)\<close>. A deadline 14 days after now gives true, one 15 days after now
  gives false, one a day before now gives false, and no deadline before now or 15 days or
  more after now gives true.
\<close>

theorem closing_soon_whole_days:
  assumes "deadline_date item = PyDatetime dl" "tzinfo dl = None" "tzinfo n = None"
  shows "is_closing_soon f n item
           = Inr (0 \<le> timedelta_days (to_microseconds dl - to_microseconds n)
                  \<and> timedelta_days (to_microseconds dl - to_microseconds n) \<le> 14)
     \<and> is_closing_soon f n item
           = Inr (to_microseconds n \<le> to_microseconds dl
                  \<and> to_microseconds dl < to_microseconds n + 15 * day_us)
     \<and> (to_microseconds dl = to_microseconds n + 14 * day_us \<longrightarrow> is_closing_soon f n item = Inr True)
     \<and> (to_microseconds dl = to_microseconds n + 15 * day_us \<longrightarrow> is_closing_soon f n item = Inr False)
     \<and> (to_microseconds dl = to_microseconds n - day_us \<longrightarrow> is_closing_soon f n item = Inr False)
     \<and> (to_microseconds dl < to_microseconds n \<or> to_microseconds n + 15 * day_us \<le> to_microseconds dl
           \<longrightarrow> is_closing_soon f n item = Inr False)"
proof -
  have days: "is_closing_soon f n item
           = Inr (0 \<le> timedelta_days (to_microseconds dl - to_microseconds n)
                  \<and> timedelta_days (to_microseconds dl - to_microseconds n) \<le> 14)"
    using assms by (simp add: is_closing_soon_def days_left_ok_def datetime_sub_def)
  note window = closing_soon_naive [OF assms, of f]
  have "to_microseconds dl = to_microseconds n + 14 * day_us \<longrightarrow> is_closing_soon f n item = Inr True"
    "to_microseconds dl = to_microseconds n + 15 * day_us \<longrightarrow> is_closing_soon f n item = Inr False"
    "to_microseconds dl = to_microseconds n - day_us \<longrightarrow> is_closing_soon f n item = Inr False"
    "to_microseconds dl < to_microseconds n \<or> to_microseconds n + 15 * day_us \<le> to_microseconds dl
           \<longrightarrow> is_closing_soon f n item = Inr False"
    by (auto simp: window day_us_def)
  with days window show ?thesis by (intro conjI)
qed

theorem closing_soon_whole_days_witness:
  "deadline_date (due (PyDatetime (midnight 2026 1 15))) = PyDatetime (midnight 2026 1 15)
   \<and> tzinfo (midnight 2026 1 15) = None \<and> tzinfo noon = None
   \<and> to_microseconds (midnight 2026 1 15) = to_microseconds noon + 13 * day_us + 43200000000
   \<and> is_closing_soon fromiso0 noon (due (PyDatetime (midnight 2026 1 15))) = Inr True"
proof -
  have h: "deadline_date (due (PyDatetime (midnight 2026 1 15))) = PyDatetime (midnight 2026 1 15)"
    "tzinfo (midnight 2026 1 15) = None" "tzinfo noon = None"
    by (simp_all add: due_def midnight_def noon_def)
  have d: "to_microseconds (midnight 2026 1 15) = to_microseconds noon + 13 * day_us + 43200000000"
    by (simp add: noon_def date_eval)
  from closing_soon_whole_days [OF h, of fromiso0]
  have "is_closing_soon fromiso0 noon (due (PyDatetime (midnight 2026 1 15)))
           = Inr (to_microseconds noon \<le> to_microseconds (midnight 2026 1 15)
                  \<and> to_microseconds (midnight 2026 1 15) < to_microseconds noon + 15 * day_us)"
    by blast
  then have "is_closing_soon fromiso0 noon (due (PyDatetime (midnight 2026 1 15))) = Inr True"
    by (simp only: d) (simp add: day_us_def)
  with h d show ?thesis by (intro conjI)
qed

theorem closing_soon_window_counterexample:
  "is_closing_soon fromiso0 noon (due (PyDatetime (midnight 2026 1 16))) = Inr True
   \<and> to_microseconds noon + 14 * day_us < to_microseconds (midnight 2026 1 16)"
  by (simp add: is_closing_soon_def days_left_ok_def datetime_sub_def timedelta_days_def
      due_def noon_def date_eval)

text \<open>
  C10 (malformed deadlines). \<^verbatim>\<open>is_closing_soon\<close> returns false, without raising, when the
  deadline is missing, \<^verbatim>\<open>None\<close>, the empty string, or a string that
  \<^verbatim>\<open>fromisoformat\<close> rejects with \<^verbatim>\<open>ValueError\<close>; a string that \<^verbatim>\<open>fromisoformat\<close> reads is
  treated exactly like the \<^verbatim>\<open>datetime\<close> it denotes.
\<close>

theorem closing_soon_malformed:
  "(deadline_date item = Missing \<or> deadline_date item = PyNone \<longrightarrow>
       is_closing_soon f n item = Inr False)
   \<and> (deadline_date item = PyStr s \<and> (s = [] \<or> f s = Inl ValueError) \<longrightarrow>
       is_closing_soon f n item = Inr False)
   \<and> (deadline_date item = PyStr s \<and> s \<noteq> [] \<and> f s = Inr dl \<longrightarrow>
       is_closing_soon f n item = is_closing_soon f n (item\<lparr>deadline_date := PyDatetime dl\<rparr>))"
  by (auto simp: is_closing_soon_def)

theorem closing_soon_malformed_witness:
  "is_closing_soon fromisoformat_date noon (due Missing) = Inr False
   \<and> is_closing_soon fromisoformat_date noon (due PyNone) = Inr False
   \<and> fromisoformat_date (ustr ''in curand'') = Inl ValueError
   \<and> is_closing_soon fromisoformat_date noon (due (PyStr (ustr ''in curand''))) = Inr False
   \<and> fromisoformat_date (ustr ''2026-01-10'') = Inr (midnight 2026 1 10)
   \<and> is_closing_soon fromisoformat_date noon (due (PyStr (ustr ''2026-01-10'')))
       = is_closing_soon fromisoformat_date noon (due (PyDatetime (midnight 2026 1 10)))
   \<and> is_closing_soon fromisoformat_date noon (due (PyStr (ustr ''2026-01-10''))) = Inr True"
proof -
  have bad: "fromisoformat_date (ustr ''in curand'') = Inl ValueError"
    by (simp add: fromisoformat_date_def ustr_def)
  have good: "fromisoformat_date (ustr ''2026-01-10'') = Inr (midnight 2026 1 10)"
    by (simp add: fromisoformat_date_def ustr_def iso_digit_def datetime_new_def valid_date_def
        days_in_month_def is_leap_def)
  have ne: "ustr ''2026-01-10'' \<noteq> []" by (simp add: ustr_def)
  have a: "is_closing_soon fromisoformat_date noon (due Missing) = Inr False"
    using closing_soon_malformed [of "due Missing" fromisoformat_date noon] by (simp add: due_def)
  have b: "is_closing_soon fromisoformat_date noon (due PyNone) = Inr False"
    using closing_soon_malformed [of "due PyNone" fromisoformat_date noon] by (simp add: due_def)
  have c: "is_closing_soon fromisoformat_date noon (due (PyStr (ustr ''in curand''))) = Inr False"
    using closing_soon_malformed [of "due (PyStr (ustr ''in curand''))" fromisoformat_date noon
        "ustr ''in curand''"] bad
    by (simp add: due_def)
  have d: "is_closing_soon fromisoformat_date noon (due (PyStr (ustr ''2026-01-10'')))
       = is_closing_soon fromisoformat_date noon (due (PyDatetime (midnight 2026 1 10)))"
    using closing_soon_malformed [of "due (PyStr (ustr ''2026-01-10''))" fromisoformat_date noon
        "ustr ''2026-01-10''" "midnight 2026 1 10"] good ne
    by (simp add: due_def)
  have "is_closing_soon fromisoformat_date noon (due (PyDatetime (midnight 2026 1 10))) = Inr True"
    by (simp add: is_closing_soon_def days_left_ok_def datetime_sub_def timedelta_days_def
        due_def noon_def date_eval)
  with d have e: "is_closing_soon fromisoformat_date noon (due (PyStr (ustr ''2026-01-10''))) = Inr True"
    by simp
  from a b bad c good d e show ?thesis by (intro conjI)
qed

text \<open>
  C2 (whole-word, case-insensitive matching). A keyword of the list is matched exactly when
  the lower-cased text \<^verbatim>\<open>title + " " + description\<close> contains it with no word character
  (letter, digit or underscore) directly before or directly after it. The titles
  "prelungire" and "long" do not match "ong". A text that contains a keyword in any
  letter case, with no word character next to it, in the title or in the description, is
  matched; in particular "ong", "ONG", "Ong".
\<close>

theorem keyword_whole_word:
  assumes U: "ascii_conformant U"
  shows "(\<forall>k\<in>set ALL_KEYWORDS.
            k \<in> set (match_keywords U item) \<longleftrightarrow>
              (\<exists>pre post. match_text U item = pre @ k @ post
                  \<and> (pre = [] \<or> \<not> is_word U (last pre))
                  \<and> (post = [] \<or> \<not> is_word U (hd post))))
     \<and> set (match_keywords U item) \<subseteq> set ALL_KEYWORDS
     \<and> ustr ''ong'' \<notin> set (match_keywords U (listing i ''prelungire'' []))
     \<and> ustr ''ong'' \<notin> set (match_keywords U (listing i ''long'' []))
     \<and> ustr ''ong'' \<notin> set (match_keywords U (listing i [] ''prelungire''))
     \<and> (lower_keeps_nonword U \<longrightarrow>
          (\<forall>k\<in>set ALL_KEYWORDS. \<forall>pre w post.
              (title item = pre @ w @ post \<or> description item = pre @ w @ post)
              \<and> map ascii_lower w = k
              \<and> (pre = [] \<or> \<not> is_word U (last pre))
              \<and> (post = [] \<or> \<not> is_word U (hd post))
            \<longrightarrow> k \<in> set (match_keywords U item)))"
proof -
  have a: "\<forall>k\<in>set ALL_KEYWORDS.
            k \<in> set (match_keywords U item) \<longleftrightarrow>
              (\<exists>pre post. match_text U item = pre @ k @ post
                  \<and> (pre = [] \<or> \<not> is_word U (last pre))
                  \<and> (post = [] \<or> \<not> is_word U (hd post)))"
    using matched_iff [OF U] by blast
  have b: "set (match_keywords U item) \<subseteq> set ALL_KEYWORDS"
    by (auto simp: match_keywords_def)
  have ong: "ustr ''ong'' \<in> set ALL_KEYWORDS" by (simp add: kw_defs)
  have ong_lower: "py_lower U (ustr ''ong'') = ustr ''ong''" by (rule keyword_shape(5) [OF U ong])
  have c1: "ustr ''ong'' \<notin> set (match_keywords U (listing i ''prelungire'' []))"
    by (simp add: match_keywords_def keyword_hit_whole_word ong_lower match_text_def py_lower_def
        listing_def ustr_def lower_at_ascii [OF U] is_word_ascii [OF U] word_here_def at_boundary_def
        ascii_lower_def ascii_alnum_def)
  have c2: "ustr ''ong'' \<notin> set (match_keywords U (listing i ''long'' []))"
    by (simp add: match_keywords_def keyword_hit_whole_word ong_lower match_text_def py_lower_def
        listing_def ustr_def lower_at_ascii [OF U] is_word_ascii [OF U] word_here_def at_boundary_def
        ascii_lower_def ascii_alnum_def)
  have c3: "ustr ''ong'' \<notin> set (match_keywords U (listing i [] ''prelungire''))"
    by (simp add: match_keywords_def keyword_hit_whole_word ong_lower match_text_def py_lower_def
        listing_def ustr_def lower_at_ascii [OF U] is_word_ascii [OF U] word_here_def at_boundary_def
        ascii_lower_def ascii_alnum_def)
  have d: "k \<in> set (match_keywords U item)"
    if L: "lower_keeps_nonword U" and k: "k \<in> set ALL_KEYWORDS"
      and occ: "title item = pre @ w @ post \<or> description item = pre @ w @ post"
      and w: "map ascii_lower w = k"
      and pre: "pre = [] \<or> \<not> is_word U (last pre)"
      and post: "post = [] \<or> \<not> is_word U (hd post)" for k pre w post
  proof -
    from occ have "\<exists>pre' post'. title item @ [32] @ description item = pre' @ w @ post'
        \<and> (pre' = [] \<or> \<not> is_word U (last pre')) \<and> (post' = [] \<or> \<not> is_word U (hd post'))"
    proof
      assume t: "title item = pre @ w @ post"
      have "post @ [32] @ description item \<noteq> []" by simp
      moreover have "\<not> is_word U (hd (post @ [32] @ description item))"
        using post space_not_word [OF U] by (cases post) auto
      ultimately show ?thesis
        using t pre
        by (intro exI [of _ pre] exI [of _ "post @ [32] @ description item"]) simp
    next
      assume t: "description item = pre @ w @ post"
      have "\<not> is_word U (last (title item @ [32] @ pre))"
        using pre space_not_word [OF U] by (cases pre rule: rev_cases) auto
      then show ?thesis
        using t post
        by (intro exI [of _ "title item @ [32] @ pre"] exI [of _ post]) simp
    qed
    then obtain pre' post' where
      "title item @ [32] @ description item = pre' @ w @ post'"
      "pre' = [] \<or> \<not> is_word U (last pre')" "post' = [] \<or> \<not> is_word U (hd post')"
      by blast
    with standalone_in_text [OF U L k w, of pre' post']
    have "whole_word_in U k [] (match_text U item)" by (simp add: match_text_def)
    with k show ?thesis
      by (simp add: match_keywords_def keyword_hit_whole_word keyword_shape(5) [OF U k])
  qed
  have d': "lower_keeps_nonword U \<longrightarrow>
          (\<forall>k\<in>set ALL_KEYWORDS. \<forall>pre w post.
              (title item = pre @ w @ post \<or> description item = pre @ w @ post)
              \<and> map ascii_lower w = k
              \<and> (pre = [] \<or> \<not> is_word U (last pre))
              \<and> (post = [] \<or> \<not> is_word U (hd post))
            \<longrightarrow> k \<in> set (match_keywords U item))"
    using d by blast
  from a b c1 c2 c3 d' show ?thesis by (intro conjI)
qed

theorem keyword_whole_word_witness:
  "ascii_conformant sample \<and> lower_keeps_nonword sample
   \<and> ustr ''ong'' \<in> set ALL_KEYWORDS
   \<and> title (listing ''afcn_1'' ''Fonduri: ONG'' []) = ustr ''Fonduri: '' @ ustr ''ONG'' @ []
   \<and> map ascii_lower (ustr ''ONG'') = ustr ''ong''
   \<and> \<not> is_word sample (last (ustr ''Fonduri: ''))
   \<and> ustr ''ong'' \<in> set (match_keywords sample (listing ''afcn_1'' ''Fonduri: ONG'' []))
   \<and> ustr ''ong'' \<notin> set (match_keywords sample (listing ''afcn_1'' ''prelungire'' []))
   \<and> ustr ''ong'' \<notin> set (match_keywords sample (listing ''afcn_1'' ''long'' []))"
proof -
  note T = keyword_whole_word [OF sample_conformant,
      of "listing ''afcn_1'' ''Fonduri: ONG'' []" "''afcn_1''"]
  have k: "ustr ''ong'' \<in> set ALL_KEYWORDS" by (simp add: kw_defs)
  have t: "title (listing ''afcn_1'' ''Fonduri: ONG'' []) = ustr ''Fonduri: '' @ ustr ''ONG'' @ []"
    by (simp add: listing_def ustr_def)
  have w: "map ascii_lower (ustr ''ONG'') = ustr ''ong''"
    by (simp add: ustr_def ascii_lower_def)
  have p: "\<not> is_word sample (last (ustr ''Fonduri: ''))"
    by (simp add: ustr_def is_word_def sample_def ascii_alnum_def)
  note c1 = T [THEN conjunct2, THEN conjunct2, THEN conjunct1]
  note c2 = T [THEN conjunct2, THEN conjunct2, THEN conjunct2, THEN conjunct1]
  note d = T [THEN conjunct2, THEN conjunct2, THEN conjunct2, THEN conjunct2, THEN conjunct2,
      THEN mp, OF sample_keeps_nonword, THEN bspec, OF k, THEN spec, THEN spec, THEN spec,
      of "ustr ''Fonduri: ''" "ustr ''ONG''" "[]"]
  from d t w p
  have hit: "ustr ''ong'' \<in> set (match_keywords sample (listing ''afcn_1'' ''Fonduri: ONG'' []))"
    by simp
  note miss = c1 c2
  from sample_conformant sample_keeps_nonword k t w p hit miss show ?thesis by (intro conjI)
qed

end
